theory Spec2Isabelle
  imports Main "HOL-Library.AList"
begin

unbundle bit_operations_syntax

section \<open>The parsing layer of go-zfs (utils.go)\<close>

text \<open>
  Go strings are byte sequences: a Go \<^verbatim>\<open>string\<close> is a \<^typ>\<open>string\<close> here, one
  \<^typ>\<open>char\<close> per byte, and \<^verbatim>\<open>len\<close> is \<^const>\<open>length\<close>. A Go function that
  returns \<^verbatim>\<open>(value, error)\<close> returns a pair whose second component is
  \<^typ>\<open>'e option\<close>, \<^const>\<open>None\<close> for \<^verbatim>\<open>nil\<close>; a pointer or slice that may be
  \<^verbatim>\<open>nil\<close> is an option as well. A run-time panic is the value \<open>Panic\<close> of
  the type \<open>outcome\<close>.
\<close>

subsection \<open>Errors\<close>

text \<open>\<^verbatim>\<open>strconv.ErrSyntax\<close> and \<^verbatim>\<open>strconv.ErrRange\<close>.\<close>

datatype num_err = ErrSyntax | ErrRange

text \<open>
  The error values of the package, one constructor per place that builds one. An
  argument of type \<open>error\<close> is the error wrapped with \<^verbatim>\<open>%w\<close>.
  \<^item> \<open>NumError f s e\<close> is \<^verbatim>\<open>&strconv.NumError{Func: f, Num: s, Err: e}\<close>;
  \<^item> \<open>Error e d s\<close> is \<^verbatim>\<open>&Error{Err: e, Debug: d, Stderr: s}\<close> of \<^verbatim>\<open>run\<close>, the
    executor's own error kept as its message;
  \<^item> \<open>OutputMismatch\<close> is
    \<^verbatim>\<open>errors.New("output does not match what is expected on this platform")\<close>;
  \<^item> \<open>OctalTooShort\<close> is \<^verbatim>\<open>"invalid octal code: too short"\<close>, \<open>InvalidOctal e\<close> is
    \<^verbatim>\<open>"invalid octal code: %w"\<close>;
  \<^item> \<open>RegexpNoMatch\<close> is \<^verbatim>\<open>"regexp does not match"\<close>;
  \<^item> \<open>EmptyLine\<close> is \<^verbatim>\<open>"empty line passed"\<close>, \<open>UnknownChangeType f\<close> is
    \<^verbatim>\<open>"unknown change type '%s'"\<close>, \<open>MismatchingFields expected got\<close> is
    \<^verbatim>\<open>"mismatching number of fields: expect ..., got: %d"\<close>, \<open>UnknownInodeType f\<close> is
    \<^verbatim>\<open>"unknown inode type '%s'"\<close>;
  \<^item> \<open>FailedFilename e\<close> is \<^verbatim>\<open>"failed to parse filename: %w"\<close>, \<open>FailedReferenceCount e\<close>
    is \<^verbatim>\<open>"failed to parse reference count: %w"\<close>;
  \<^item> \<open>FailedLine i e line\<close> is
    \<^verbatim>\<open>"failed to parse line %d of zfs diff: %w, got: '%s'"\<close>.
\<close>

datatype error =
    NumError string string num_err
  | Error string string string
  | OutputMismatch
  | OctalTooShort
  | InvalidOctal error
  | RegexpNoMatch
  | EmptyLine
  | UnknownChangeType string
  | MismatchingFields string nat
  | UnknownInodeType string
  | FailedFilename error
  | FailedReferenceCount error
  | FailedLine nat error "string list"

datatype 'a outcome = Panic string | Return 'a

subsection \<open>The Go library functions the parsers call\<close>

text \<open>
  \<^verbatim>\<open>strconv.ParseUint(s, base, bitSize)\<close> for \<open>2 \<le> base \<le> 36\<close>, the only way the
  package calls it (a \<open>bitSize\<close> of 0 stands for \<open>IntSize\<close>). \<open>lower\<close> is the library's \<^verbatim>\<open>c | ('x' - 'X')\<close>;
  \<open>digit_val\<close> is the \<^verbatim>\<open>switch\<close> that reads one byte as a digit; the loop keeps the
  64-bit accumulator \<open>n\<close>, with the wrap-around of \<^verbatim>\<open>n + uint64(d)\<close> written out.
\<close>

definition lower :: "nat \<Rightarrow> nat" where
  "lower c = c OR 32"

definition digit_val :: "nat \<Rightarrow> nat option" where
  "digit_val c =
     (if 48 \<le> c \<and> c \<le> 57 then Some (c - 48)
      else if 97 \<le> lower c \<and> lower c \<le> 122 then Some (lower c - 97 + 10)
      else None)"

definition maxUint64 :: nat where
  "maxUint64 = 2 ^ 64 - 1"

text \<open>\<^verbatim>\<open>strconv.IntSize\<close>, the size of \<^verbatim>\<open>int\<close>: 64 on the 64-bit platforms modelled here.\<close>

definition IntSize :: nat where
  "IntSize = 64"

fun ParseUint_loop :: "nat \<Rightarrow> nat \<Rightarrow> nat \<Rightarrow> string \<Rightarrow> nat \<times> num_err option" where
  "ParseUint_loop base maxVal n [] = (n, None)"
| "ParseUint_loop base maxVal n (c # cs) =
     (case digit_val (of_char c) of
        None \<Rightarrow> (0, Some ErrSyntax)
      | Some d \<Rightarrow>
          if d \<ge> base then (0, Some ErrSyntax)
          else if n \<ge> maxUint64 div base + 1 then (maxVal, Some ErrRange)
          else
            (let n1 = (n * base + d) mod 2 ^ 64 in
             if n1 < n * base \<or> n1 > maxVal then (maxVal, Some ErrRange)
             else ParseUint_loop base maxVal n1 cs))"

definition ParseUint :: "string \<Rightarrow> nat \<Rightarrow> nat \<Rightarrow> nat \<times> error option" where
  "ParseUint s base bitSize =
     (if s = [] then (0, Some (NumError ''ParseUint'' s ErrSyntax))
      else
        (case ParseUint_loop base (2 ^ (if bitSize = 0 then IntSize else bitSize) - 1) 0 s of
           (n, Some e) \<Rightarrow> (n, Some (NumError ''ParseUint'' s e))
         | (n, None) \<Rightarrow> (n, None)))"

text \<open>
  \<^verbatim>\<open>strconv.ParseInt(s, base, bitSize)\<close>: an optional sign, then \<^verbatim>\<open>ParseUint\<close> on the
  rest; a syntax error is renamed, a range error and a value beyond the signed range
  give \<^verbatim>\<open>ErrRange\<close> with the nearest bound.
\<close>

definition ParseInt :: "string \<Rightarrow> nat \<Rightarrow> nat \<Rightarrow> int \<times> error option" where
  "ParseInt s base bitSize =
     (if s = [] then (0, Some (NumError ''ParseInt'' s ErrSyntax))
      else
        (let neg = (hd s = CHR ''-'');
             s1 = (if hd s = CHR ''+'' \<or> hd s = CHR ''-'' then tl s else s)
         in
           (case ParseUint s1 base bitSize of
              (un, Some (NumError f num ErrSyntax)) \<Rightarrow> (0, Some (NumError ''ParseInt'' s ErrSyntax))
            | (un, err) \<Rightarrow>
                (let cutoff = (2 :: nat) ^ ((if bitSize = 0 then IntSize else bitSize) - 1) in
                 if \<not> neg \<and> un \<ge> cutoff then (int cutoff - 1, Some (NumError ''ParseInt'' s ErrRange))
                 else if neg \<and> un > cutoff then (- int cutoff, Some (NumError ''ParseInt'' s ErrRange))
                 else (if neg then - int un else int un, None)))))"

text \<open>
  \<^verbatim>\<open>strconv.Atoi(s)\<close>. Strings of 1 to 18 bytes take the fast path: an optional sign and
  decimal digits, read by \<open>Atoi_digits\<close> (\<^verbatim>\<open>ch -= '0'\<close> wraps around in a byte, so a byte
  below \<^verbatim>\<open>'0'\<close> is above 9 as well). Every other string goes to \<^verbatim>\<open>ParseInt(s, 10, 0)\<close>,
  whose \<^verbatim>\<open>NumError\<close> is renamed.
\<close>

fun Atoi_digits :: "int \<Rightarrow> string \<Rightarrow> int option" where
  "Atoi_digits n [] = Some n"
| "Atoi_digits n (ch # s) =
     (let d = (of_char ch + 256 - 48) mod 256 :: nat in
      if d > 9 then None else Atoi_digits (n * 10 + int d) s)"

definition Atoi :: "string \<Rightarrow> int \<times> error option" where
  "Atoi s =
     (let sLen = length s in
      if 0 < sLen \<and> sLen < 19 then
        (let s1 = (if hd s = CHR ''-'' \<or> hd s = CHR ''+'' then tl s else s) in
         if s1 = [] then (0, Some (NumError ''Atoi'' s ErrSyntax))
         else
           (case Atoi_digits 0 s1 of
              None \<Rightarrow> (0, Some (NumError ''Atoi'' s ErrSyntax))
            | Some n \<Rightarrow> (if hd s = CHR ''-'' then - n else n, None)))
      else
        (case ParseInt s 10 0 of
           (i64, Some (NumError f num e)) \<Rightarrow> (i64, Some (NumError ''Atoi'' num e))
         | (i64, err) \<Rightarrow> (i64, err)))"

text \<open>
  \<^verbatim>\<open>strings.Split(s, sep)\<close> for a separator of one byte: the segments between the
  separators, one more than there are separators. \<open>cur\<close> is the segment being read.
\<close>

fun Split_from :: "string \<Rightarrow> string \<Rightarrow> char \<Rightarrow> string list" where
  "Split_from cur [] sep = [cur]"
| "Split_from cur (c # s) sep =
     (if c = sep then cur # Split_from [] s sep else Split_from (cur @ [c]) s sep)"

definition Split :: "string \<Rightarrow> char \<Rightarrow> string list" where
  "Split s sep = Split_from [] s sep"

text \<open>\<^verbatim>\<open>strings.Join(elems, sep)\<close>.\<close>

fun Join :: "string list \<Rightarrow> string \<Rightarrow> string" where
  "Join [] sep = []"
| "Join [e] sep = e"
| "Join (e # es) sep = e @ sep @ Join es sep"

text \<open>\<^verbatim>\<open>strings.Index(s, substr)\<close> for a substring of one byte; \<open>-1\<close> when it is absent.\<close>

fun Index :: "string \<Rightarrow> char \<Rightarrow> int" where
  "Index [] b = - 1"
| "Index (c # s) b = (if c = b then 0 else (let i = Index s b in if i < 0 then - 1 else i + 1))"

text \<open>
  \<^verbatim>\<open>utf8.DecodeRuneInString\<close>: the code point at the head of a string and its width in
  bytes, \<^verbatim>\<open>(RuneError, 1)\<close> for a byte that starts no valid encoding. The table
  \<^verbatim>\<open>first\<close> and the \<^verbatim>\<open>acceptRanges\<close> of the library are the bounds \<open>lo\<close> and \<open>hi\<close>
  on the second byte.
\<close>

definition RuneError :: nat where
  "RuneError = 0xFFFD"

definition DecodeRuneInString :: "string \<Rightarrow> nat \<times> nat" where
  "DecodeRuneInString s =
     (case s of
        [] \<Rightarrow> (RuneError, 0)
      | c0 # rest \<Rightarrow>
          (let s0 = of_char c0 :: nat in
           if s0 < 0x80 then (s0, 1)
           else if s0 < 0xC2 \<or> 0xF4 < s0 then (RuneError, 1)
           else
             (let sz = (if s0 < 0xE0 then 2 else if s0 < 0xF0 then 3 else 4) :: nat;
                  lo = (if s0 = 0xE0 then 0xA0 else if s0 = 0xF0 then 0x90 else 0x80) :: nat;
                  hi = (if s0 = 0xED then 0x9F else if s0 = 0xF4 then 0x8F else 0xBF) :: nat
              in
                if length s < sz then (RuneError, 1)
                else
                  (let s1 = of_char (rest ! 0) :: nat in
                   if s1 < lo \<or> hi < s1 then (RuneError, 1)
                   else if sz \<le> 2 then ((s0 AND 0x1F) * 64 + (s1 AND 0x3F), 2)
                   else
                     (let s2 = of_char (rest ! 1) :: nat in
                      if s2 < 0x80 \<or> 0xBF < s2 then (RuneError, 1)
                      else if sz \<le> 3
                      then ((s0 AND 0x0F) * 4096 + (s1 AND 0x3F) * 64 + (s2 AND 0x3F), 3)
                      else
                        (let s3 = of_char (rest ! 2) :: nat in
                         if s3 < 0x80 \<or> 0xBF < s3 then (RuneError, 1)
                         else ((s0 AND 0x07) * 262144 + (s1 AND 0x3F) * 4096
                               + (s2 AND 0x3F) * 64 + (s3 AND 0x3F), 4)))))))"

text \<open>A non-empty string always yields a rune at least one byte wide.\<close>

lemma DecodeRuneInString_width:
  "(rune, width) = DecodeRuneInString (c # s) \<Longrightarrow> 0 < width"
  by (auto simp: DecodeRuneInString_def Let_def split: if_splits)

text \<open>\<^verbatim>\<open>unicode.IsSpace\<close>: the Latin-1 spaces and the \<^verbatim>\<open>White_Space\<close> range table.\<close>

definition IsSpace :: "nat \<Rightarrow> bool" where
  "IsSpace r =
     (r \<in> {0x09, 0x0A, 0x0B, 0x0C, 0x0D, 0x20, 0x85, 0xA0, 0x1680, 0x2028, 0x2029, 0x202F, 0x205F, 0x3000}
      \<or> (0x2000 \<le> r \<and> r \<le> 0x200A))"

text \<open>
  \<^verbatim>\<open>strings.Fields(s)\<close>, which is \<^verbatim>\<open>strings.FieldsFunc(s, unicode.IsSpace)\<close> (the
  library's ASCII fast path computes the same fields). The loop
  \<^verbatim>\<open>for end, rune := range s\<close> walks the string rune by rune; \<open>start\<close> is the field
  being read, \<^const>\<open>None\<close> between fields (\<^verbatim>\<open>start < 0\<close>).
\<close>

function Fields_loop :: "string option \<Rightarrow> string \<Rightarrow> string list" where
  "Fields_loop start [] = (case start of None \<Rightarrow> [] | Some w \<Rightarrow> [w])"
| "Fields_loop start (c # s) =
     (let (rune, width) = DecodeRuneInString (c # s) in
      if IsSpace rune then
        (case start of
           None \<Rightarrow> Fields_loop None (drop width (c # s))
         | Some w \<Rightarrow> w # Fields_loop None (drop width (c # s)))
      else
        Fields_loop (Some ((case start of None \<Rightarrow> [] | Some w \<Rightarrow> w) @ take width (c # s)))
          (drop width (c # s)))"
  by pat_completeness auto
termination
  by (relation "measure (\<lambda>(start, s). length s)") (auto dest: DecodeRuneInString_width)

definition Fields :: "string \<Rightarrow> string list" where
  "Fields s = Fields_loop None s"

text \<open>
  \<^verbatim>\<open>strings.ToLower(s)\<close>. A string of ASCII bytes has its letters \<^verbatim>\<open>A\<close> to \<^verbatim>\<open>Z\<close> moved
  to lower case byte by byte; any other string goes through the Unicode case tables,
  which are the parameter \<open>unicodeToLower\<close>.
\<close>

definition ToLower :: "(string \<Rightarrow> string) \<Rightarrow> string \<Rightarrow> string" where
  "ToLower unicodeToLower s =
     (if list_all (\<lambda>c. (of_char c :: nat) < 0x80) s
      then map (\<lambda>c. if 65 \<le> (of_char c :: nat) \<and> (of_char c :: nat) \<le> 90
                     then char_of ((of_char c :: nat) + 32) else c) s
      else unicodeToLower s)"

text \<open>
  \<^verbatim>\<open>referenceCountRegex.FindStringSubmatch(field)\<close> for the one regular expression of
  the package, \<^verbatim>\<open>\(([+-]\d+?)\)\<close>. \<open>match_at s\<close> is the match that starts at the head of
  \<open>s\<close>: an opening parenthesis, a sign, the decimal digits up to the closing
  parenthesis (the lazy \<^verbatim>\<open>\d+?\<close> has no other way to reach it); the result is the
  matched text and the text of the group. The search is not anchored: the leftmost
  start that matches wins, \<^const>\<open>None\<close> is \<^verbatim>\<open>nil\<close>.
\<close>

definition isDigit :: "char \<Rightarrow> bool" where
  "isDigit c = (48 \<le> (of_char c :: nat) \<and> (of_char c :: nat) \<le> 57)"

fun match_at :: "string \<Rightarrow> string list option" where
  "match_at (p # sg # rest) =
     (if p = CHR ''('' \<and> (sg = CHR ''+'' \<or> sg = CHR ''-'') then
        (let ds = takeWhile isDigit rest; r = dropWhile isDigit rest in
         if ds \<noteq> [] \<and> r \<noteq> [] \<and> hd r = CHR '')''
         then Some [p # sg # ds @ [CHR '')''], sg # ds]
         else None)
      else None)"
| "match_at s = None"

fun FindStringSubmatch :: "string \<Rightarrow> string list option" where
  "FindStringSubmatch [] = None"
| "FindStringSubmatch (c # s) =
     (case match_at (c # s) of
        Some m \<Rightarrow> Some m
      | None \<Rightarrow> FindStringSubmatch s)"

subsection \<open>Octal escapes: \<^verbatim>\<open>unescapeFilepath\<close>\<close>

text \<open>
  The loop \<^verbatim>\<open>for i := 0; i < llen; { ... }\<close> of \<^verbatim>\<open>unescapeFilepath\<close>, with the index
  \<open>i\<close> and the buffer \<open>buf\<close> as arguments. \<open>CHR 0x5C\<close> is the backslash;
  \<^verbatim>\<open>path[(i+1):(i+4)]\<close> is \<open>take 3 (drop (i + 1) path)\<close>, in range once
  \<^verbatim>\<open>llen < i+4\<close> has been excluded; \<^verbatim>\<open>byte(val)\<close> is \<^const>\<open>char_of\<close>.
\<close>

function unescape_loop :: "string \<Rightarrow> nat \<Rightarrow> string \<Rightarrow> string \<times> error option" where
  "unescape_loop path i buf =
     (if i < length path then
        (if path ! i = CHR 0x5C then
           (if length path < i + 4 then ([], Some OctalTooShort)
            else
              (case ParseUint (take 3 (drop (i + 1) path)) 8 8 of
                 (val, Some err) \<Rightarrow> ([], Some (InvalidOctal err))
               | (val, None) \<Rightarrow> unescape_loop path (i + 4) (buf @ [char_of val])))
         else unescape_loop path (i + 1) (buf @ [path ! i]))
      else (buf, None))"
  by pat_completeness auto
termination
  by (relation "measure (\<lambda>(path, i, buf). length path - i)") auto

definition unescapeFilepath :: "string \<Rightarrow> string \<times> error option" where
  "unescapeFilepath path = unescape_loop path 0 []"

subsection \<open>The diff line parser: \<^verbatim>\<open>parseInodeChange\<close>, \<^verbatim>\<open>parseInodeChanges\<close>\<close>

text \<open>
  \<^verbatim>\<open>ChangeType\<close> and \<^verbatim>\<open>InodeType\<close> are integers whose named values start at 1; the value
  0 ("unknown type" in the source) is what a lookup of a missing key in
  \<^verbatim>\<open>changeTypeMap\<close> or \<^verbatim>\<open>inodeTypeMap\<close> returns. It is the first constructor here.
\<close>

datatype ChangeType = ChangeUnknown | Removed | Created | Modified | Renamed

datatype InodeType =
    InodeUnknown | BlockDevice | CharacterDevice | Directory | Door | NamedPipe
  | SymbolicLink | EventPort | Socket | File

record InodeChange =
  Change :: ChangeType
  Type :: InodeType
  Path :: string
  NewPath :: string
  ReferenceCountChange :: int

definition changeTypeMap :: "string \<Rightarrow> ChangeType" where
  "changeTypeMap k =
     (case map_of [(''-'', Removed), (''+'', Created), (''M'', Modified), (''R'', Renamed)] k of
        None \<Rightarrow> ChangeUnknown
      | Some t \<Rightarrow> t)"

definition inodeTypeMap :: "string \<Rightarrow> InodeType" where
  "inodeTypeMap k =
     (case map_of
        [(''B'', BlockDevice), (''C'', CharacterDevice), (''/'', Directory), (''>'', Door),
         (''|'', NamedPipe), (''@'', SymbolicLink), (''P'', EventPort), (''='', Socket),
         (''F'', File)] k of
        None \<Rightarrow> InodeUnknown
      | Some t \<Rightarrow> t)"

definition parseReferenceCount :: "string \<Rightarrow> int \<times> error option" where
  "parseReferenceCount field =
     (case FindStringSubmatch field of
        None \<Rightarrow> (0, Some RegexpNoMatch)
      | Some matches \<Rightarrow> Atoi (matches ! 1))"

text \<open>
  \<^verbatim>\<open>parseInodeChange(line)\<close> returns a pointer and an error. The first \<^verbatim>\<open>switch\<close> checks
  the number of fields, so the reads of \<^verbatim>\<open>line[1]\<close>, \<^verbatim>\<open>line[2]\<close> and \<^verbatim>\<open>line[3]\<close> after it
  are in range. \<open>newPath\<close> and \<open>referenceCount\<close> start at their zero values.
\<close>

definition parseInodeChange :: "string list \<Rightarrow> InodeChange option \<times> error option" where
  "parseInodeChange line =
     (let llen = length line in
      if llen < 1 then (None, Some EmptyLine)
      else
        (let changeType = changeTypeMap (line ! 0) in
         if changeType = ChangeUnknown then (None, Some (UnknownChangeType (line ! 0)))
         else if changeType = Renamed \<and> llen \<noteq> 4
         then (None, Some (MismatchingFields ''4'' llen))
         else if changeType = Modified \<and> llen \<noteq> 4 \<and> llen \<noteq> 3
         then (None, Some (MismatchingFields ''3..4'' llen))
         else if changeType \<noteq> Renamed \<and> changeType \<noteq> Modified \<and> llen \<noteq> 3
         then (None, Some (MismatchingFields ''3'' llen))
         else
           (let inodeType = inodeTypeMap (line ! 1) in
            if inodeType = InodeUnknown then (None, Some (UnknownInodeType (line ! 1)))
            else
              (case unescapeFilepath (line ! 2) of
                 (path, Some err) \<Rightarrow> (None, Some (FailedFilename err))
               | (path, None) \<Rightarrow>
                   (let newPath = []; referenceCount = 0 in
                    if changeType = Renamed then
                      (case unescapeFilepath (line ! 3) of
                         (newPath, Some err) \<Rightarrow> (None, Some (FailedFilename err))
                       | (newPath, None) \<Rightarrow>
                           (Some \<lparr>Change = changeType, Type = inodeType, Path = path,
                                  NewPath = newPath, ReferenceCountChange = referenceCount\<rparr>, None))
                    else if changeType = Modified \<and> llen = 4 then
                      (case parseReferenceCount (line ! 3) of
                         (referenceCount, Some err) \<Rightarrow> (None, Some (FailedReferenceCount err))
                       | (referenceCount, None) \<Rightarrow>
                           (Some \<lparr>Change = changeType, Type = inodeType, Path = path,
                                  NewPath = newPath, ReferenceCountChange = referenceCount\<rparr>, None))
                    else
                      (Some \<lparr>Change = changeType, Type = inodeType, Path = path,
                             NewPath = newPath, ReferenceCountChange = referenceCount\<rparr>, None))))))"

text \<open>
  \<^verbatim>\<open>parseInodeChanges(lines)\<close>: \<open>changes\<close> is the slice made with \<^verbatim>\<open>len(lines)\<close> nil
  pointers, \<open>i\<close> the index of the line being parsed; \<^verbatim>\<open>changes[i] = c\<close> is in range.
\<close>

fun parseInodeChanges_loop ::
  "nat \<Rightarrow> InodeChange option list \<Rightarrow> string list list \<Rightarrow> InodeChange option list option \<times> error option"
where
  "parseInodeChanges_loop i changes [] = (Some changes, None)"
| "parseInodeChanges_loop i changes (line # lines) =
     (case parseInodeChange line of
        (c, Some err) \<Rightarrow> (None, Some (FailedLine i err line))
      | (c, None) \<Rightarrow> parseInodeChanges_loop (i + 1) (changes[i := c]) lines)"

definition parseInodeChanges :: "string list list \<Rightarrow> InodeChange option list option \<times> error option" where
  "parseInodeChanges lines = parseInodeChanges_loop 0 (replicate (length lines) None) lines"


subsection \<open>The process runner: \<^verbatim>\<open>run\<close>\<close>

text \<open>
  The executor \<^verbatim>\<open>z.exec.Run(in, cmdOut, &stderr, cmd, args...)\<close> is a function from the
  command and its arguments to the error it returns (its message, \<^const>\<open>None\<close> for
  \<^verbatim>\<open>nil\<close>) and the bytes it writes to standard output and to standard error. The logger
  and the identifier of the invocation do not reach the result and are left out.
\<close>

record zfs =
  exec :: "string \<Rightarrow> string list \<Rightarrow> string option \<times> string \<times> string"
  sudo :: bool

text \<open>
  \<^verbatim>\<open>run(in, out, cmd, args...)\<close>. \<open>out_given\<close> says that the caller passed a writer
  (\<^verbatim>\<open>out != nil\<close>), which then receives the output in place of the buffer. The rows are
  \<^const>\<open>None\<close> where the code returns \<^verbatim>\<open>nil\<close>. \<open>CHR 0x0A\<close> is the newline;
  \<^verbatim>\<open>lines[0 : len(lines)-1]\<close> is \<^const>\<open>butlast\<close>, in range since \<^verbatim>\<open>Split\<close> returns
  at least one segment.
\<close>

definition run :: "zfs \<Rightarrow> bool \<Rightarrow> string \<Rightarrow> string list \<Rightarrow> string list list option \<times> error option" where
  "run z out_given cmd args =
     (let args1 = (if sudo z then cmd # args else args);
          cmd1 = (if sudo z then ''sudo'' else cmd);
          joinedArgs = Join args1 '' ''
      in
        (case exec z cmd1 args1 of
           (Some err, stdout, stderr) \<Rightarrow>
             (None, Some (Error err (Join [cmd1, joinedArgs] '' '') stderr))
         | (None, stdout, stderr) \<Rightarrow>
             if out_given then (None, None)
             else
               (let lines = Split stdout (CHR 0x0A);
                    lines1 = butlast lines
                in (Some (map Fields lines1), None))))"

definition doOutput :: "zfs \<Rightarrow> string list \<Rightarrow> string list list option \<times> error option" where
  "doOutput z arg = run z False ''zfs'' arg"

subsection \<open>The property mapper: \<^verbatim>\<open>setString\<close>, \<^verbatim>\<open>setUint\<close>, \<^verbatim>\<open>Dataset.parseProps\<close>\<close>

text \<open>
  \<^verbatim>\<open>setString(field, value)\<close> and \<^verbatim>\<open>setUint(field, value)\<close> write through a pointer: here
  they take the field's old value and return its new one. A \<^verbatim>\<open>uint64\<close> is a \<^typ>\<open>nat\<close>;
  \<^verbatim>\<open>ParseUint(value, 10, 64)\<close> returns no number above \<open>2 ^ 64 - 1\<close>.
\<close>

definition setString :: "string \<Rightarrow> string \<Rightarrow> string" where
  "setString field value = (let v = (if value \<noteq> ''-'' then value else []) in v)"

definition setUint :: "nat \<Rightarrow> string \<Rightarrow> nat \<times> error option" where
  "setUint field value =
     (if value \<noteq> ''-'' then
        (case ParseUint value 10 64 of
           (v, Some err) \<Rightarrow> (field, Some err)
         | (v, None) \<Rightarrow> (v, None))
      else (0, None))"

text \<open>
  \<^verbatim>\<open>strconv.ParseFloat(s, 64)\<close>. Floating-point numbers are not modelled: \<^verbatim>\<open>float64\<close> is
  the type variable \<open>'f\<close> and the parser of a non-empty string is the parameter
  \<open>parseFloat64\<close>. The empty string is a syntax error, with the value 0.
\<close>

definition ParseFloat :: "(string \<Rightarrow> 'f \<times> error option) \<Rightarrow> string \<Rightarrow> nat \<Rightarrow> ('f :: zero) \<times> error option" where
  "ParseFloat parseFloat64 s bitSize =
     (if s = [] then (0, Some (NumError ''ParseFloat'' s ErrSyntax)) else parseFloat64 s)"

text \<open>The \<^verbatim>\<open>Zpool\<close> struct (without its client pointer \<^verbatim>\<open>z\<close>).\<close>

record 'f Zpool =
  Name :: string
  Health :: string
  Allocated :: nat
  Size :: nat
  Free :: nat
  Fragmentation :: nat
  ReadOnly :: bool
  Freeing :: nat
  Leaked :: nat
  DedupRatio :: 'f

text \<open>
  \<^verbatim>\<open>(z *Zpool) parseLine(line)\<close>. \<^verbatim>\<open>line[1]\<close> and \<^verbatim>\<open>line[2]\<close> are read before anything
  else and panic on a shorter line; \<^verbatim>\<open>val[:len(val)-1]\<close> panics on an empty \<open>val\<close>.
  \<^verbatim>\<open>val[:i]\<close> is \<open>take (nat i) val\<close>.
\<close>

definition Zpool_parseLine ::
  "(string \<Rightarrow> 'f \<times> error option) \<Rightarrow> ('f :: zero) Zpool \<Rightarrow> string list \<Rightarrow> ('f Zpool \<times> error option) outcome"
where
  "Zpool_parseLine parseFloat64 z line =
     (if length line < 3 then Panic ''index out of range''
      else
        (let prop = line ! 1; val = line ! 2 in
         if prop = ''name'' then Return (z\<lparr>Name := setString (Name z) val\<rparr>, None)
         else if prop = ''health'' then Return (z\<lparr>Health := setString (Health z) val\<rparr>, None)
         else if prop = ''allocated'' then
           (case setUint (Allocated z) val of (u, err) \<Rightarrow> Return (z\<lparr>Allocated := u\<rparr>, err))
         else if prop = ''size'' then
           (case setUint (Size z) val of (u, err) \<Rightarrow> Return (z\<lparr>Size := u\<rparr>, err))
         else if prop = ''free'' then
           (case setUint (Free z) val of (u, err) \<Rightarrow> Return (z\<lparr>Free := u\<rparr>, err))
         else if prop = ''fragmentation'' then
           (let i = Index val (CHR ''%'');
                i = (if i < 0 then int (length val) else i)
            in case setUint (Fragmentation z) (take (nat i) val) of
                 (u, err) \<Rightarrow> Return (z\<lparr>Fragmentation := u\<rparr>, err))
         else if prop = ''readonly'' then Return (z\<lparr>ReadOnly := (val = ''on'')\<rparr>, None)
         else if prop = ''freeing'' then
           (case setUint (Freeing z) val of (u, err) \<Rightarrow> Return (z\<lparr>Freeing := u\<rparr>, err))
         else if prop = ''leaked'' then
           (case setUint (Leaked z) val of (u, err) \<Rightarrow> Return (z\<lparr>Leaked := u\<rparr>, err))
         else if prop = ''dedupratio'' then
           (if length val < 1 then Panic ''slice bounds out of range [:-1]''
            else
              (case ParseFloat parseFloat64 (take (length val - 1) val) 64 of
                 (f, err) \<Rightarrow> Return (z\<lparr>DedupRatio := f\<rparr>, err)))
         else Return (z, None)))"

text \<open>
  Modelled from the spec: the field \<open>props\<close> of the \<^verbatim>\<open>Dataset\<close> struct, which
  \<^verbatim>\<open>parseProps\<close> and \<^verbatim>\<open>listByType\<close> use and the struct declaration at hand does not
  list. It is the spec's property table, a Go \<^verbatim>\<open>map[string]string\<close> from property
  name to raw value: an association list with one entry per key, updated with
  \<^const>\<open>AList.update\<close>, whose \<^verbatim>\<open>len\<close> is its \<^const>\<open>length\<close>. \<open>lookup\<close> is the Go
  index expression \<^verbatim>\<open>m[k]\<close>, the empty string for a missing key. The other fields
  are those of the struct declaration, without the client pointer \<^verbatim>\<open>z\<close>.
\<close>

record Dataset =
  Name :: string
  Origin :: string
  Used :: nat
  Avail :: nat
  Mountpoint :: string
  Compression :: string
  Type :: string
  Written :: nat
  Volsize :: nat
  Logicalused :: nat
  Usedbydataset :: nat
  Quota :: nat
  Referenced :: nat
  props :: "(string \<times> string) list"

definition lookup :: "(string \<times> string) list \<Rightarrow> string \<Rightarrow> string" where
  "lookup m k = (case map_of m k of None \<Rightarrow> [] | Some v \<Rightarrow> v)"

text \<open>
  What \<^verbatim>\<open>parseProps\<close> reads from outside the functions modelled here:
  \<^verbatim>\<open>runtime.GOOS\<close>, the list \<^verbatim>\<open>dsPropList\<close> (only its length is used) and the Unicode
  case tables of \<^verbatim>\<open>strings.ToLower\<close>.
\<close>

record platform =
  GOOS :: string
  dsPropList :: "string list"
  unicodeToLower :: "string \<Rightarrow> string"

text \<open>
  The loop \<^verbatim>\<open>for i, v := range out[0]\<close> of \<^verbatim>\<open>parseProps\<close>: \<open>header\<close> is what is left of
  \<^verbatim>\<open>out[0]\<close> from index \<open>i\<close> on, \<open>vals\<close> is \<^verbatim>\<open>out[1]\<close>.
\<close>

fun parseProps_loop ::
  "platform \<Rightarrow> string list \<Rightarrow> nat \<Rightarrow> string list \<Rightarrow> (string \<times> string) list \<Rightarrow> (string \<times> string) list"
where
  "parseProps_loop pf vals i [] m = m"
| "parseProps_loop pf vals i (v # header) m =
     (let val = (if i < length vals then vals ! i else ''-'') in
      parseProps_loop pf vals (i + 1) header (AList.update (ToLower (unicodeToLower pf) v) val m))"

text \<open>
  The statements of \<^verbatim>\<open>parseProps\<close> that fill one field each, with the statements after
  them as the continuation \<open>rest\<close>. \<open>string_step get put key rest\<close> is
  \<^verbatim>\<open>setString(&d.F, d.props[key])\<close>; \<open>uint_step get put key rest\<close> is
  \<^verbatim>\<open>if err = setUint(&d.F, d.props[key]); err != nil { return err }\<close>. \<open>get\<close> reads the
  field \<^verbatim>\<open>F\<close> and \<open>put\<close> writes it.
\<close>

definition string_step ::
  "(Dataset \<Rightarrow> string) \<Rightarrow> (string \<Rightarrow> Dataset \<Rightarrow> Dataset) \<Rightarrow> string \<Rightarrow>
   (Dataset \<Rightarrow> Dataset \<times> error option) \<Rightarrow> Dataset \<Rightarrow> Dataset \<times> error option"
where
  "string_step get put key rest d = rest (put (setString (get d) (lookup (props d) key)) d)"

definition uint_step ::
  "(Dataset \<Rightarrow> nat) \<Rightarrow> (nat \<Rightarrow> Dataset \<Rightarrow> Dataset) \<Rightarrow> string \<Rightarrow>
   (Dataset \<Rightarrow> Dataset \<times> error option) \<Rightarrow> Dataset \<Rightarrow> Dataset \<times> error option"
where
  "uint_step get put key rest d =
     (case setUint (get d) (lookup (props d) key) of
        (u, Some err) \<Rightarrow> (put u d, Some err)
      | (u, None) \<Rightarrow> rest (put u d))"

text \<open>
  \<^verbatim>\<open>(d *Dataset) parseProps(out)\<close>: the dataset is passed in and returned as the call
  leaves it, also when it fails half way.
\<close>

definition parseProps :: "platform \<Rightarrow> Dataset \<Rightarrow> string list list \<Rightarrow> Dataset \<times> error option" where
  "parseProps pf d out =
     (if length out \<noteq> 2 then (d, Some OutputMismatch)
      else
        (let d = d\<lparr>props := parseProps_loop pf (out ! 1) 0 (out ! 0) (props d)\<rparr> in
         if length (props d) \<le> length (dsPropList pf) then (d, Some OutputMismatch)
         else
           (string_step Name (\<lambda>v d. d\<lparr>Name := v\<rparr>) ''name''
           (string_step Origin (\<lambda>v d. d\<lparr>Origin := v\<rparr>) ''origin''
           (uint_step Used (\<lambda>u d. d\<lparr>Used := u\<rparr>) ''used''
           (uint_step Avail (\<lambda>u d. d\<lparr>Avail := u\<rparr>) ''avail''
           (string_step Mountpoint (\<lambda>v d. d\<lparr>Mountpoint := v\<rparr>) ''mountpoint''
           (string_step Compression (\<lambda>v d. d\<lparr>Compression := v\<rparr>) ''compress''
           (string_step Type (\<lambda>v d. d\<lparr>Type := v\<rparr>) ''type''
           (uint_step Volsize (\<lambda>u d. d\<lparr>Volsize := u\<rparr>) ''volsize''
           (uint_step Quota (\<lambda>u d. d\<lparr>Quota := u\<rparr>) ''quota''
           (uint_step Referenced (\<lambda>u d. d\<lparr>Referenced := u\<rparr>) ''refer''
           (\<lambda>d. if GOOS pf = ''solaris'' then (d, None)
                else
                  (uint_step Written (\<lambda>u d. d\<lparr>Written := u\<rparr>) ''written''
                  (uint_step Logicalused (\<lambda>u d. d\<lparr>Logicalused := u\<rparr>) ''lused''
                  (uint_step Usedbydataset (\<lambda>u d. d\<lparr>Usedbydataset := u\<rparr>) ''usedds''
                  (\<lambda>d. (d, None))))) d)))))))))))
           d))"

subsection \<open>The table batch parser: \<^verbatim>\<open>listByType\<close>\<close>

text \<open>\<^verbatim>\<open>&Dataset{z: z, Name: name, props: make(map[string]string)}\<close>.\<close>

definition newDataset :: "string \<Rightarrow> Dataset" where
  "newDataset name =
     \<lparr>Name = name, Origin = [], Used = 0, Avail = 0, Mountpoint = [], Compression = [],
      Type = [], Written = 0, Volsize = 0, Logicalused = 0, Usedbydataset = 0, Quota = 0,
      Referenced = 0, props = []\<rparr>"

text \<open>
  The loop \<^verbatim>\<open>for _, line := range out[1:]\<close> of \<^verbatim>\<open>listByType\<close>. \<open>datasets\<close> is the slice of
  pointers; the pointer \<^verbatim>\<open>ds\<close> is \<^verbatim>\<open>nil\<close> while the slice is empty and points to its
  last element afterwards, so \<^verbatim>\<open>ds.parseProps\<close> updates that element. \<^verbatim>\<open>line[0]\<close>
  panics on a row without fields, and \<^verbatim>\<open>ds.parseProps\<close> on a \<^verbatim>\<open>nil\<close> pointer.
\<close>

fun listByType_loop ::
  "platform \<Rightarrow> string list \<Rightarrow> string \<Rightarrow> Dataset list \<Rightarrow> string list list \<Rightarrow>
   (Dataset list option \<times> error option) outcome"
where
  "listByType_loop pf header name datasets [] =
     Return (if datasets = [] then None else Some datasets, None)"
| "listByType_loop pf header name datasets (line # rest) =
     (if length line < 1 then Panic ''index out of range [0] with length 0''
      else
        (let datasets1 = (if name \<noteq> line ! 0 then datasets @ [newDataset (line ! 0)] else datasets);
             name1 = (if name \<noteq> line ! 0 then line ! 0 else name)
         in
           if datasets1 = [] then Panic ''invalid memory address or nil pointer dereference''
           else
             (case parseProps pf (last datasets1) [header, line] of
                (ds, Some err) \<Rightarrow> Return (None, Some err)
              | (ds, None) \<Rightarrow> listByType_loop pf header name1 (butlast datasets1 @ [ds]) rest)))"

definition listByType ::
  "platform \<Rightarrow> zfs \<Rightarrow> string \<Rightarrow> string \<Rightarrow> (Dataset list option \<times> error option) outcome"
where
  "listByType pf z t filter_arg =
     (let args = [''list'', ''-rp'', ''-t'', t, ''-o'', ''all''];
          args = (if filter_arg \<noteq> [] then args @ [filter_arg] else args)
      in
        (case doOutput z args of
           (out, Some err) \<Rightarrow> Return (None, Some err)
         | (None, None) \<Rightarrow> Return (None, None)
         | (Some [], None) \<Rightarrow> Return (None, None)
         | (Some (header # rows), None) \<Rightarrow> listByType_loop pf header [] [] rows))"


subsection \<open>Definitions used to state the properties\<close>

text \<open>
  An octal digit, and the number three of them denote. \<open>prepend c r\<close> puts the byte
  \<open>c\<close> in front of a decoded string and passes an error on, with the empty string
  the decoder returns beside it.
\<close>

definition octal :: "char \<Rightarrow> bool" where
  "octal c = (48 \<le> (of_char c :: nat) \<and> (of_char c :: nat) \<le> 55)"

definition octal_value :: "string \<Rightarrow> nat" where
  "octal_value w = foldl (\<lambda>n c. 8 * n + (of_char c - 48)) 0 w"

definition prepend :: "char \<Rightarrow> string \<times> error option \<Rightarrow> string \<times> error option" where
  "prepend c r = (case r of (t, None) \<Rightarrow> (c # t, None) | (t, Some e) \<Rightarrow> ([], Some e))"

text \<open>
  The loop of \<^verbatim>\<open>unescapeFilepath\<close> once more, by recursion on what is left of the path
  instead of an index into it; \<open>unescape_loop_from\<close> below shows that the two agree.
\<close>

fun unescape_from :: "string \<Rightarrow> string \<Rightarrow> string \<times> error option" where
  "unescape_from [] buf = (buf, None)"
| "unescape_from (c # s) buf =
     (if c = CHR 0x5C then
        (if length s < 3 then ([], Some OctalTooShort)
         else
           (case ParseUint (take 3 s) 8 8 of
              (val, Some err) \<Rightarrow> ([], Some (InvalidOctal err))
            | (val, None) \<Rightarrow> unescape_from (drop 3 s) (buf @ [char_of val])))
      else unescape_from s (buf @ [c]))"

text \<open>
  The encoding rule in the words of the specification (the encoder belongs to the
  \<^verbatim>\<open>zfs diff\<close> tool, this package has the decoder only): a byte outside printable
  7-bit ASCII, that is below the space, the delete character or any 8-bit byte,
  becomes a backslash and three octal digits; a printable byte stands for itself.
\<close>

definition printable :: "char \<Rightarrow> bool" where
  "printable c = (32 \<le> (of_char c :: nat) \<and> (of_char c :: nat) < 127)"

definition octal3 :: "nat \<Rightarrow> string" where
  "octal3 b = [char_of (48 + b div 64), char_of (48 + b div 8 mod 8), char_of (48 + b mod 8)]"

definition spec_escape_byte :: "char \<Rightarrow> string" where
  "spec_escape_byte c = (if printable c then [c] else CHR 0x5C # octal3 (of_char c))"

definition spec_escape :: "string \<Rightarrow> string" where
  "spec_escape s = concat (map spec_escape_byte s)"

text \<open>
  \<open>fields_ok line\<close>: the line has the number of fields its change code asks for, 4
  for \<open>R\<close>, 3 or 4 for \<open>M\<close>, 3 for \<open>-\<close> and \<open>+\<close>. \<open>parse_ok line\<close>: the line
  parser returns no error for the line.
\<close>

definition fields_ok :: "string list \<Rightarrow> bool" where
  "fields_ok line =
     (line \<noteq> [] \<and>
      (line ! 0 = ''R'' \<and> length line = 4 \<or>
       line ! 0 = ''M'' \<and> (length line = 3 \<or> length line = 4) \<or>
       (line ! 0 = ''-'' \<or> line ! 0 = ''+'') \<and> length line = 3))"

definition parse_ok :: "string list \<Rightarrow> bool" where
  "parse_ok line = (snd (parseInodeChange line) = None)"

text \<open>
  \<open>key_of pf v\<close> is the key \<^verbatim>\<open>parseProps\<close> stores the header field \<open>v\<close> under, and
  \<open>val_at vals i\<close> the value it pairs with the header field at index \<open>i\<close>.
\<close>

definition key_of :: "platform \<Rightarrow> string \<Rightarrow> string" where
  "key_of pf v = ToLower (unicodeToLower pf) v"

definition val_at :: "string list \<Rightarrow> nat \<Rightarrow> string" where
  "val_at vals i = (if i < length vals then vals ! i else ''-'')"

text \<open>
  The records of a listing, stated on the rows. \<open>groups rows\<close> cuts the value rows
  into the runs of neighbouring rows with the same leading field: a row joins the run
  of the row after it exactly when their leading fields are equal. \<open>feed\<close> gives
  the rows of one run to \<^verbatim>\<open>parseProps\<close>, one after the other and each with the header,
  on the same dataset, and stops at the first error. \<open>records\<close> makes one dataset
  per run, from a fresh dataset named by the run's leading field, and stops at the
  first error as well.
\<close>

fun groups :: "string list list \<Rightarrow> string list list list" where
  "groups [] = []"
| "groups (r # rs) =
     (case groups rs of
        [] \<Rightarrow> [[r]]
      | g # gs \<Rightarrow> if hd (hd g) = hd r then (r # g) # gs else [r] # g # gs)"

fun feed :: "platform \<Rightarrow> string list \<Rightarrow> Dataset \<Rightarrow> string list list \<Rightarrow> Dataset \<times> error option" where
  "feed pf header d [] = (d, None)"
| "feed pf header d (r # rs) =
     (case parseProps pf d [header, r] of
        (d1, Some err) \<Rightarrow> (d1, Some err)
      | (d1, None) \<Rightarrow> feed pf header d1 rs)"

fun records :: "platform \<Rightarrow> string list \<Rightarrow> string list list list \<Rightarrow> Dataset list \<times> error option" where
  "records pf header [] = ([], None)"
| "records pf header (g # gs) =
     (case feed pf header (newDataset (hd (hd g))) g of
        (d, Some err) \<Rightarrow> ([], Some err)
      | (d, None) \<Rightarrow>
          (case records pf header gs of
             (ds, Some err) \<Rightarrow> ([], Some err)
           | (ds, None) \<Rightarrow> (d # ds, None)))"

text \<open>
  The reference-count suffix. \<open>decimal ds\<close> is the number the decimal digits
  \<open>ds\<close> denote (\<open>dec_from n ds\<close> with the digits read so far as \<open>n\<close>);
  \<open>signed_value sg ds\<close> is that number with the sign \<open>sg\<close>, and \<open>fits_int\<close> says
  that a number is a 64-bit \<^verbatim>\<open>int\<close>. \<open>group_text sg ds\<close> is the text \<open>(+N)\<close> or
  \<open>(-N)\<close>, and \<open>is_group sg ds\<close> says that \<open>sg\<close> is a sign and \<open>ds\<close> one or
  more decimal digits.
\<close>

definition dec_from :: "nat \<Rightarrow> string \<Rightarrow> nat" where
  "dec_from n ds = foldl (\<lambda>n c. 10 * n + (of_char c - 48)) n ds"

definition decimal :: "string \<Rightarrow> nat" where
  "decimal ds = dec_from 0 ds"

definition is_sign :: "char \<Rightarrow> bool" where
  "is_sign sg = (sg = CHR ''+'' \<or> sg = CHR ''-'')"

definition signed_value :: "char \<Rightarrow> string \<Rightarrow> int" where
  "signed_value sg ds = (if sg = CHR ''-'' then - int (decimal ds) else int (decimal ds))"

definition fits_int :: "int \<Rightarrow> bool" where
  "fits_int v = (- (2 ^ 63) \<le> v \<and> v < 2 ^ 63)"

definition is_group :: "char \<Rightarrow> string \<Rightarrow> bool" where
  "is_group sg ds = (is_sign sg \<and> ds \<noteq> [] \<and> list_all isDigit ds)"

definition group_text :: "char \<Rightarrow> string \<Rightarrow> string" where
  "group_text sg ds = CHR ''('' # sg # ds @ [CHR '')'']"

text \<open>
  A group starts a text when the text begins with \<open>(+N)\<close> or \<open>(-N)\<close>. The group
  found at offset \<open>n\<close> of a field is the leftmost one when no group starts at an earlier
  offset of the field, whatever characters (opening parentheses included) stand there.
\<close>

definition starts_group :: "string \<Rightarrow> bool" where
  "starts_group t = (\<exists>sg ds post. is_group sg ds \<and> t = group_text sg ds @ post)"

definition no_group_before :: "nat \<Rightarrow> string \<Rightarrow> bool" where
  "no_group_before n s = (\<forall>i < n. \<not> starts_group (drop i s))"

section \<open>Properties\<close>

subsection \<open>Bytes and octal numbers\<close>

lemma char_of_eq_iff: "(char_of (n::nat) = c) = (n mod 256 = of_char c)"
proof
  assume "char_of n = c"
  then have "of_char (char_of n) = (of_char c :: nat)" by simp
  then show "n mod 256 = of_char c" by simp
next
  assume "n mod 256 = of_char c"
  then have "char_of (n mod 256) = char_of (of_char c :: nat)" by simp
  then show "char_of n = c" by simp
qed

lemma digit_val_octal: "octal c \<Longrightarrow> digit_val (of_char c) = Some (of_char c - 48)"
  by (simp add: octal_def digit_val_def)

lemma digit_val_not_octal:
  "\<not> octal c \<Longrightarrow> digit_val (of_char c) = None \<or> (\<exists>d. digit_val (of_char c) = Some d \<and> 8 \<le> d)"
  unfolding octal_def digit_val_def by (cases "48 \<le> (of_char c::nat) \<and> (of_char c::nat) \<le> 57") auto

lemma loop_not_octal: "\<not> octal c \<Longrightarrow> ParseUint_loop 8 maxVal n (c # cs) = (0, Some ErrSyntax)"
  using digit_val_not_octal[of c] by auto

lemma loop_digit:
  assumes "digit_val (of_char c) = Some d" "d < 8" "n < 64"
  shows "ParseUint_loop 8 255 n (c # cs) =
     (if n * 8 + d \<le> 255 then ParseUint_loop 8 255 (n * 8 + d) cs else (255, Some ErrRange))"
proof -
  have "(n * 8 + d) mod 2 ^ 64 = n * 8 + d" using assms by simp
  moreover have "\<not> n \<ge> maxUint64 div 8 + 1" using assms by (simp add: maxUint64_def)
  ultimately show ?thesis using assms by (simp add: Let_def)
qed

lemma loop_octal:
  assumes "octal c" "n < 64"
  shows "ParseUint_loop 8 255 n (c # cs) =
     (if n * 8 + (of_char c - 48) \<le> 255 then ParseUint_loop 8 255 (n * 8 + (of_char c - 48)) cs
      else (255, Some ErrRange))"
proof -
  have "of_char c - 48 < (8::nat)" using assms by (auto simp: octal_def)
  then show ?thesis using loop_digit[OF digit_val_octal[OF assms(1)] _ assms(2)] by blast
qed

lemma ParseUint_octal3:
  "ParseUint [a, b, c] 8 8 =
     (if \<not> (octal a \<and> octal b \<and> octal c) then (0, Some (NumError ''ParseUint'' [a, b, c] ErrSyntax))
      else if 255 < octal_value [a, b, c] then (255, Some (NumError ''ParseUint'' [a, b, c] ErrRange))
      else (octal_value [a, b, c], None))"
proof (cases "octal a")
  case False
  then show ?thesis by (simp add: ParseUint_def loop_not_octal del: ParseUint_loop.simps(2))
next
  case a: True
  then have da: "of_char a - 48 < (8::nat)" by (auto simp: octal_def)
  show ?thesis
  proof (cases "octal b")
    case False
    then show ?thesis using a da by (simp add: ParseUint_def loop_octal loop_not_octal del: ParseUint_loop.simps(2))
  next
    case b: True
    then have db: "of_char b - 48 < (8::nat)" by (auto simp: octal_def)
    show ?thesis
    proof (cases "octal c")
      case False
      then show ?thesis using a da b db by (simp add: ParseUint_def loop_octal loop_not_octal del: ParseUint_loop.simps(2))
    next
      case c: True
      then have dc: "of_char c - 48 < (8::nat)" by (auto simp: octal_def)
      have n2: "(of_char a - 48) * 8 + (of_char b - 48) < (64::nat)" using da db by arith
      show ?thesis using a b c da db dc n2
        by (simp add: ParseUint_def loop_octal octal_value_def mult.commute del: ParseUint_loop.simps(2))
    qed
  qed
qed

declare unescape_loop.simps [simp del]

lemma unescape_loop_from: "unescape_loop path i buf = unescape_from (drop i path) buf"
proof (induction path i buf rule: unescape_loop.induct)
  case (1 path i buf)
  show ?case
  proof (cases "i < length path")
    case False
    then show ?thesis by (subst unescape_loop.simps) simp
  next
    case True
    then have d: "drop i path = path ! i # drop (Suc i) path"
      by (simp add: Cons_nth_drop_Suc)
    have l: "(length path < i + 4) = (length path - Suc i < 3)" using True by arith
    show ?thesis
    proof (cases "path ! i = CHR 0x5C")
      case False
      then show ?thesis using True 1(2) d by (subst unescape_loop.simps) simp
    next
      case bs: True
      show ?thesis
      proof (cases "length path < i + 4")
        case True
        then show ?thesis using \<open>i < length path\<close> bs d l by (subst unescape_loop.simps) simp
      next
        case False
        then show ?thesis using \<open>i < length path\<close> bs d l 1(1)
          by (subst unescape_loop.simps) (auto split: prod.splits option.splits simp: add.commute)
      qed
    qed
  qed
qed

lemma unescape_from_buf:
  "unescape_from s buf =
     (case unescape_from s [] of (t, None) \<Rightarrow> (buf @ t, None) | (t, Some e) \<Rightarrow> ([], Some e))"
proof (induction s arbitrary: buf rule: length_induct)
  case (1 s)
  show ?case
  proof (cases s)
    case Nil
    then show ?thesis by simp
  next
    case (Cons c s')
    have IH: "unescape_from u b =
        (case unescape_from u [] of (t, None) \<Rightarrow> (b @ t, None) | (t, Some e) \<Rightarrow> ([], Some e))"
      if "length u < length s" for u b
      using 1[rule_format, OF that] .
    have ls: "length s' < length s" "length (drop 3 s') < length s" using Cons by simp_all
    show ?thesis
    proof (cases "c = CHR 0x5C")
      case False
      obtain t e where r: "unescape_from s' [] = (t, e)" by (cases "unescape_from s' []")
      have "unescape_from s' (buf @ [c]) = (case e of None \<Rightarrow> (buf @ c # t, None) | Some x \<Rightarrow> ([], Some x))"
        by (subst IH[OF ls(1)]) (simp add: r)
      moreover have "unescape_from s' [c] = (case e of None \<Rightarrow> (c # t, None) | Some x \<Rightarrow> ([], Some x))"
        by (subst IH[OF ls(1)]) (simp add: r)
      ultimately show ?thesis
        unfolding Cons using False by (cases e) simp_all
    next
      case True
      show ?thesis
      proof (cases "length s' < 3")
        case True
        then show ?thesis unfolding Cons using \<open>c = CHR 0x5C\<close> by simp
      next
        case False
        obtain v pe where p: "ParseUint (take 3 s') 8 8 = (v, pe)" by (cases "ParseUint (take 3 s') 8 8")
        obtain t e where r: "unescape_from (drop 3 s') [] = (t, e)" by (cases "unescape_from (drop 3 s') []")
        have "unescape_from (drop 3 s') (buf @ [char_of v]) =
              (case e of None \<Rightarrow> (buf @ char_of v # t, None) | Some x \<Rightarrow> ([], Some x))"
          by (subst IH[OF ls(2)]) (simp add: r)
        moreover have "unescape_from (drop 3 s') [char_of v] =
              (case e of None \<Rightarrow> (char_of v # t, None) | Some x \<Rightarrow> ([], Some x))"
          by (subst IH[OF ls(2)]) (simp add: r)
        ultimately show ?thesis
          unfolding Cons using \<open>c = CHR 0x5C\<close> False p by (cases e; cases pe) simp_all
      qed
    qed
  qed
qed

lemma unescape_from_prepend: "unescape_from s [c] = prepend c (unescape_from s [])"
  by (subst unescape_from_buf) (simp add: prepend_def)

lemma unescapeFilepath_from: "unescapeFilepath s = unescape_from s []"
  by (simp add: unescapeFilepath_def unescape_loop_from)

lemma unescapeFilepath_Cons:
  "unescapeFilepath (c # s) =
     (if c \<noteq> CHR 0x5C then prepend c (unescapeFilepath s)
      else if length s < 3 then ([], Some OctalTooShort)
      else
        (case ParseUint (take 3 s) 8 8 of
           (val, Some err) \<Rightarrow> ([], Some (InvalidOctal err))
         | (val, None) \<Rightarrow> prepend (char_of val) (unescapeFilepath (drop 3 s))))"
  by (simp add: unescapeFilepath_from unescape_from_prepend split: prod.splits option.splits)

lemma unescapeFilepath_window:
  assumes "3 \<le> length s"
  shows "unescapeFilepath (CHR 0x5C # s) =
     (if \<not> list_all octal (take 3 s)
      then ([], Some (InvalidOctal (NumError ''ParseUint'' (take 3 s) ErrSyntax)))
      else if 255 < octal_value (take 3 s)
      then ([], Some (InvalidOctal (NumError ''ParseUint'' (take 3 s) ErrRange)))
      else prepend (char_of (octal_value (take 3 s))) (unescapeFilepath (drop 3 s)))"
proof -
  obtain a b c r where s: "s = a # b # c # r"
    using assms by (metis Suc_le_length_iff numeral_3_eq_3)
  show ?thesis
    unfolding s by (simp add: unescapeFilepath_Cons ParseUint_octal3 del: One_nat_def)
qed

lemma octal3_byte:
  assumes "n < 256"
  shows "list_all octal (octal3 n)" and "octal_value (octal3 n) = n"
proof -
  have x: "n div 64 \<le> 7" using assms by simp
  have y: "n div 8 mod 8 \<le> 7" by presburger
  have z: "n mod 8 \<le> 7" by presburger
  have a: "of_char (char_of (48 + n div 64)) = 48 + n div 64" using x by simp
  have b: "of_char (char_of (48 + n div 8 mod 8)) = 48 + n div 8 mod 8" using y by simp
  have c: "of_char (char_of (48 + n mod 8)) = 48 + n mod 8" using z by simp
  show "list_all octal (octal3 n)"
    using x y z by (simp add: octal3_def octal_def a b c del: of_char_of)
  have "n div 64 = n div 8 div 8" by (simp add: div_mult2_eq)
  then have "8 * (n div 64) + n div 8 mod 8 = n div 8" by simp
  then have "8 * (8 * (n div 64) + n div 8 mod 8) + n mod 8 = n" by simp
  then show "octal_value (octal3 n) = n"
    unfolding octal3_def octal_value_def 
    by (simp add: a b c del: of_char_of)
qed

lemma unescape_octal3:
  "unescapeFilepath (CHR 0x5C # octal3 (of_char b) @ r) = prepend b (unescapeFilepath r)"
proof -
  have n: "(of_char b :: nat) < 256" by simp
  have n': "\<not> 255 < (of_char b :: nat)" using n by linarith
  have t: "take 3 (octal3 (of_char b) @ r) = octal3 (of_char b)"
       "drop 3 (octal3 (of_char b) @ r) = r" "3 \<le> length (octal3 (of_char b) @ r)"
    by (simp_all add: octal3_def)
  have "unescapeFilepath (CHR 0x5C # octal3 (of_char b) @ r) =
      prepend (char_of (of_char b :: nat)) (unescapeFilepath r)"
    by (subst unescapeFilepath_window) (simp_all only: t octal3_byte[OF n] n' if_True if_False not_True_eq_False)
  then show ?thesis by simp
qed

lemma prepend_ok: "prepend c (t, None) = (c # t, None)"
  by (simp add: prepend_def)

lemma unescapeFilepath_Nil: "unescapeFilepath [] = ([], None)"
  by (simp add: unescapeFilepath_from)

lemma unescape_spec_escape_byte:
  "c \<noteq> CHR 0x5C \<Longrightarrow> unescapeFilepath (spec_escape_byte c @ r) = prepend c (unescapeFilepath r)"
proof (cases "printable c")
  case True
  assume "c \<noteq> CHR 0x5C"
  then show ?thesis using True by (simp add: spec_escape_byte_def unescapeFilepath_Cons)
next
  case False
  then have "spec_escape_byte c @ r = CHR 0x5C # octal3 (of_char c) @ r"
    by (simp add: spec_escape_byte_def)
  then show ?thesis by (simp only: unescape_octal3)
qed

lemma unescape_spec_escape:
  "CHR 0x5C \<notin> set s \<Longrightarrow> unescapeFilepath (spec_escape s) = (s, None)"
proof (induction s)
  case Nil
  then show ?case by (simp add: spec_escape_def unescapeFilepath_Nil)
next
  case (Cons c s)
  then have "unescapeFilepath (spec_escape s) = (s, None)" and "c \<noteq> CHR 0x5C" by auto
  then show ?case
    using unescape_spec_escape_byte[of c "spec_escape s"] by (simp add: spec_escape_def prepend_ok)
qed

subsection \<open>The octal escape decoder\<close>

text \<open>
  Claim C2, as the code has it. Decoding a backslash followed by the three octal digits
  of a byte gives that byte, for every byte and so for every one outside printable
  7-bit ASCII. Every byte other than the backslash passes through the decoder
  unchanged. Encoding a byte sequence that holds no backslash by the stated rule and
  decoding the result gives the sequence back.
\<close>

theorem unescape_inverts_escape:
  "unescapeFilepath (CHR 0x5C # octal3 (of_char b)) = ([b], None) \<and>
   (c \<noteq> CHR 0x5C \<longrightarrow> unescapeFilepath (c # s) = prepend c (unescapeFilepath s)) \<and>
   (CHR 0x5C \<notin> set bs \<longrightarrow> unescapeFilepath (spec_escape bs) = (bs, None))"
  using unescape_octal3[of b "[]"] unescape_spec_escape[of bs]
  by (simp add: unescapeFilepath_Nil unescapeFilepath_Cons prepend_ok)

theorem unescape_inverts_escape_witness:
  "unescapeFilepath (CHR 0x5C # octal3 7) = ([CHR 0x07], None) \<and>
   CHR ''a'' \<noteq> CHR 0x5C \<and>
   unescapeFilepath ''ab'' = prepend (CHR ''a'') (unescapeFilepath ''b'') \<and>
   CHR 0x5C \<notin> set [CHR ''a'', CHR 0x07, CHR 0xC3] \<and>
   unescapeFilepath (spec_escape [CHR ''a'', CHR 0x07, CHR 0xC3]) = ([CHR ''a'', CHR 0x07, CHR 0xC3], None)"
  using unescape_inverts_escape[of "CHR 0x07" "CHR ''a''" "''b''" "[CHR ''a'', CHR 0x07, CHR 0xC3]"]
  by simp

text \<open>
  The backslash is a printable 7-bit ASCII byte, so the stated rule leaves it as it
  is; the decoder reads it as the start of an escape and fails on it.
\<close>

theorem unescape_inverts_escape_counterexample:
  "printable (CHR 0x5C) \<and>
   unescapeFilepath [CHR 0x5C] = ([], Some OctalTooShort) \<and>
   unescapeFilepath (spec_escape [CHR 0x5C]) = ([], Some OctalTooShort)"
  by (simp add: printable_def spec_escape_def spec_escape_byte_def unescapeFilepath_Cons)

text \<open>
  Claim C3, as the code has it. The decoder reads the path byte by byte. A byte other
  than the backslash is appended unchanged. After a backslash, fewer than three bytes
  left is the error "invalid octal code: too short"; a byte that is no octal digit
  among the next three is an error that wraps the syntax error of the number parser;
  three octal digits above \<open>377\<close> (a value above 255) are an error that wraps its range
  error; three octal digits up to \<open>377\<close> are one byte, appended, and the scan goes on
  behind them.
\<close>

theorem unescapeFilepath_scan:
  "unescapeFilepath [] = ([], None) \<and>
   unescapeFilepath (c # s) =
     (if c \<noteq> CHR 0x5C then prepend c (unescapeFilepath s)
      else if length s < 3 then ([], Some OctalTooShort)
      else if \<not> list_all octal (take 3 s)
      then ([], Some (InvalidOctal (NumError ''ParseUint'' (take 3 s) ErrSyntax)))
      else if 255 < octal_value (take 3 s)
      then ([], Some (InvalidOctal (NumError ''ParseUint'' (take 3 s) ErrRange)))
      else prepend (char_of (octal_value (take 3 s))) (unescapeFilepath (drop 3 s)))"
proof (cases "c \<noteq> CHR 0x5C \<or> length s < 3")
  case True
  then show ?thesis by (auto simp: unescapeFilepath_Nil unescapeFilepath_Cons)
next
  case False
  then have "c = CHR 0x5C" and "3 \<le> length s" by auto
  then show ?thesis using unescapeFilepath_window[of s] by (simp add: unescapeFilepath_Nil)
qed

theorem unescapeFilepath_scan_witness:
  "unescapeFilepath (''/testpool/bar/file'' @ CHR 0x5C # ''040name'') = (''/testpool/bar/file name'', None)
   \<and> unescapeFilepath (CHR 0x5C # ''12'') = ([], Some OctalTooShort)
   \<and> unescapeFilepath (CHR 0x5C # ''1x2'')
       = ([], Some (InvalidOctal (NumError ''ParseUint'' ''1x2'' ErrSyntax)))"
  by (simp add: unescapeFilepath_scan[THEN conjunct1] unescapeFilepath_scan[THEN conjunct2]
      prepend_def octal_def octal_value_def char_of_eq_iff)

text \<open>
  Three octal digits do not always decode: \<open>400\<close> is 256, which the parser of 8-bit
  numbers refuses.
\<close>

theorem unescapeFilepath_range_counterexample:
  "list_all octal ''400'' \<and>
   unescapeFilepath (CHR 0x5C # ''400'') = ([], Some (InvalidOctal (NumError ''ParseUint'' ''400'' ErrRange)))"
  by (simp add: unescapeFilepath_window octal_def octal_value_def)


subsection \<open>The diff line parser\<close>

lemma changeTypeMap_simps:
  "changeTypeMap ''-'' = Removed" "changeTypeMap ''+'' = Created"
  "changeTypeMap ''M'' = Modified" "changeTypeMap ''R'' = Renamed"
  by (simp_all add: changeTypeMap_def)

lemma changeTypeMap_iff:
  "changeTypeMap k = ChangeUnknown \<longleftrightarrow> k \<notin> {''-'', ''+'', ''M'', ''R''}"
  "changeTypeMap k = Removed \<longleftrightarrow> k = ''-''"
  "changeTypeMap k = Created \<longleftrightarrow> k = ''+''"
  "changeTypeMap k = Modified \<longleftrightarrow> k = ''M''"
  "changeTypeMap k = Renamed \<longleftrightarrow> k = ''R''"
  by (auto simp: changeTypeMap_def)

lemma inodeTypeMap_iff:
  "inodeTypeMap k = InodeUnknown \<longleftrightarrow>
     k \<notin> {''B'', ''C'', ''/'', ''>'', ''|'', ''@'', ''P'', ''='', ''F''}"
  by (auto simp: inodeTypeMap_def)

lemma parseInodeChange_error_None:
  "parseInodeChange line = (c, Some err) \<Longrightarrow> c = None"
  by (auto simp: parseInodeChange_def Let_def split: if_splits prod.splits option.splits)

lemma parseInodeChange_ok_Some:
  "parseInodeChange line = (c, None) \<Longrightarrow> c \<noteq> None"
  by (auto simp: parseInodeChange_def Let_def split: if_splits prod.splits option.splits)

lemma parseInodeChange_Nil: "parseInodeChange [] = (None, Some EmptyLine)"
  by (simp add: parseInodeChange_def)

lemma parseInodeChange_unknown_change:
  "line \<noteq> [] \<Longrightarrow> line ! 0 \<notin> {''-'', ''+'', ''M'', ''R''} \<Longrightarrow>
   parseInodeChange line = (None, Some (UnknownChangeType (line ! 0)))"
  using changeTypeMap_iff(1)[of "line ! 0"]
  by (simp add: parseInodeChange_def Let_def)

lemma parseInodeChange_count:
  assumes "line \<noteq> []"
  shows "line ! 0 = ''R'' \<Longrightarrow> length line \<noteq> 4 \<Longrightarrow>
           parseInodeChange line = (None, Some (MismatchingFields ''4'' (length line)))"
    and "line ! 0 = ''M'' \<Longrightarrow> length line \<noteq> 3 \<Longrightarrow> length line \<noteq> 4 \<Longrightarrow>
           parseInodeChange line = (None, Some (MismatchingFields ''3..4'' (length line)))"
    and "line ! 0 = ''-'' \<or> line ! 0 = ''+'' \<Longrightarrow> length line \<noteq> 3 \<Longrightarrow>
           parseInodeChange line = (None, Some (MismatchingFields ''3'' (length line)))"
  using assms by (auto simp: parseInodeChange_def Let_def changeTypeMap_simps)

lemma parseInodeChange_unknown_inode:
  assumes "fields_ok line"
      and "line ! 1 \<notin> {''B'', ''C'', ''/'', ''>'', ''|'', ''@'', ''P'', ''='', ''F''}"
  shows "parseInodeChange line = (None, Some (UnknownInodeType (line ! 1)))"
proof -
  have u: "inodeTypeMap (line ! 1) = InodeUnknown" using assms(2) by (simp add: inodeTypeMap_iff)
  show ?thesis
    using assms(1) u unfolding fields_ok_def
    by (auto simp: parseInodeChange_def Let_def changeTypeMap_simps)
qed

lemma not_fields_ok:
  "\<not> fields_ok line \<Longrightarrow> \<exists>err. parseInodeChange line = (None, Some err)"
proof (cases "line = []")
  case True
  then show ?thesis by (simp add: parseInodeChange_Nil)
next
  case ne: False
  assume n: "\<not> fields_ok line"
  show ?thesis
  proof (cases "line ! 0 \<in> {''-'', ''+'', ''M'', ''R''}")
    case False
    then show ?thesis using parseInodeChange_unknown_change[OF ne] by blast
  next
    case True
    then show ?thesis using n ne parseInodeChange_count[OF ne] unfolding fields_ok_def by blast
  qed
qed

text \<open>
  Claim C5. The line parser returns an error and no \<open>InodeChange\<close> for the empty
  line; for a line whose field 0 is not one of \<open>-\<close>, \<open>+\<close>, \<open>M\<close>, \<open>R\<close>; for a line
  whose number of fields is not the one its change type asks for (4 for Renamed, 3 or 4
  for Modified, 3 for Removed and Created); and for a line whose field 1 is not one of
  the nine inode codes. Whenever it returns an error, the pointer it returns with it is
  \<^verbatim>\<open>nil\<close>.
\<close>

theorem parseInodeChange_rejects:
  "parseInodeChange [] = (None, Some EmptyLine) \<and>
   (line \<noteq> [] \<and> line ! 0 \<notin> {''-'', ''+'', ''M'', ''R''} \<longrightarrow>
      parseInodeChange line = (None, Some (UnknownChangeType (line ! 0)))) \<and>
   (line \<noteq> [] \<and> line ! 0 = ''R'' \<and> length line \<noteq> 4 \<longrightarrow>
      parseInodeChange line = (None, Some (MismatchingFields ''4'' (length line)))) \<and>
   (line \<noteq> [] \<and> line ! 0 = ''M'' \<and> length line \<noteq> 3 \<and> length line \<noteq> 4 \<longrightarrow>
      parseInodeChange line = (None, Some (MismatchingFields ''3..4'' (length line)))) \<and>
   (line \<noteq> [] \<and> (line ! 0 = ''-'' \<or> line ! 0 = ''+'') \<and> length line \<noteq> 3 \<longrightarrow>
      parseInodeChange line = (None, Some (MismatchingFields ''3'' (length line)))) \<and>
   (fields_ok line \<and> line ! 1 \<notin> {''B'', ''C'', ''/'', ''>'', ''|'', ''@'', ''P'', ''='', ''F''} \<longrightarrow>
      parseInodeChange line = (None, Some (UnknownInodeType (line ! 1)))) \<and>
   (\<not> fields_ok line \<or> line ! 1 \<notin> {''B'', ''C'', ''/'', ''>'', ''|'', ''@'', ''P'', ''='', ''F''} \<longrightarrow>
      (\<exists>err. parseInodeChange line = (None, Some err))) \<and>
   (\<forall>c err. parseInodeChange line = (c, Some err) \<longrightarrow> c = None)"
  using parseInodeChange_Nil parseInodeChange_unknown_change[of line]
    parseInodeChange_count[of line] parseInodeChange_unknown_inode[of line]
    not_fields_ok[of line] parseInodeChange_error_None[of line]
  by blast

theorem parseInodeChange_rejects_witness:
  "parseInodeChange [''X'', ''F'', ''/a''] = (None, Some (UnknownChangeType ''X'')) \<and>
   parseInodeChange [''R'', ''F'', ''/a''] = (None, Some (MismatchingFields ''4'' 3)) \<and>
   parseInodeChange [''M'', ''F''] = (None, Some (MismatchingFields ''3..4'' 2)) \<and>
   parseInodeChange [''+'', ''F'', ''/a'', ''/b''] = (None, Some (MismatchingFields ''3'' 4)) \<and>
   parseInodeChange [''+'', ''x'', ''/a''] = (None, Some (UnknownInodeType ''x''))"
  using parseInodeChange_rejects[of "[''X'', ''F'', ''/a'']"]
    parseInodeChange_rejects[of "[''R'', ''F'', ''/a'']"]
    parseInodeChange_rejects[of "[''M'', ''F'']"]
    parseInodeChange_rejects[of "[''+'', ''F'', ''/a'', ''/b'']"]
    parseInodeChange_rejects[of "[''+'', ''x'', ''/a'']"]
  by (simp add: fields_ok_def)

text \<open>
  Claim C10. In every \<open>InodeChange\<close> the line parser returns without an error,
  \<open>NewPath\<close> is non-empty only when the change is Renamed, and
  \<open>ReferenceCountChange\<close> is non-zero only when the change is Modified and the line
  has its fourth field; in every other case \<open>NewPath\<close> is empty and
  \<open>ReferenceCountChange\<close> is 0.
\<close>

theorem parseInodeChange_invariant:
  assumes "parseInodeChange line = (Some c, None)"
  shows "(NewPath c \<noteq> [] \<longrightarrow> Change c = Renamed) \<and>
         (ReferenceCountChange c \<noteq> 0 \<longrightarrow> Change c = Modified \<and> length line = 4) \<and>
         (Change c \<noteq> Renamed \<longrightarrow> NewPath c = []) \<and>
         (\<not> (Change c = Modified \<and> length line = 4) \<longrightarrow> ReferenceCountChange c = 0)"
  using assms
  by (auto simp: parseInodeChange_def Let_def split: if_splits prod.splits option.splits)

theorem parseInodeChange_invariant_witness:
  "parseInodeChange [''M'', ''/'', ''/testpool/bar/''] =
     (Some \<lparr>Change = Modified, Type = Directory, Path = ''/testpool/bar/'',
            NewPath = [], ReferenceCountChange = 0\<rparr>, None) \<and>
   NewPath \<lparr>Change = Modified, Type = Directory, Path = ''/testpool/bar/'',
            NewPath = [], ReferenceCountChange = 0\<rparr> = [] \<and>
   ReferenceCountChange \<lparr>Change = Modified, Type = Directory, Path = ''/testpool/bar/'',
            NewPath = [], ReferenceCountChange = 0\<rparr> = 0"
proof -
  have e: "parseInodeChange [''M'', ''/'', ''/testpool/bar/''] =
     (Some \<lparr>Change = Modified, Type = Directory, Path = ''/testpool/bar/'',
            NewPath = [], ReferenceCountChange = 0\<rparr>, None)"
    by (simp add: parseInodeChange_def changeTypeMap_simps inodeTypeMap_def
        unescapeFilepath_Cons unescapeFilepath_Nil prepend_def)
  from parseInodeChange_invariant[OF e] e show ?thesis by simp
qed

lemma parseInodeChanges_loop_eq:
  "length changes = i + length lines \<Longrightarrow>
   parseInodeChanges_loop i changes lines =
     (let k = length (takeWhile parse_ok lines) in
      if k = length lines
      then (Some (take i changes @ map (fst \<circ> parseInodeChange) lines), None)
      else (None, Some (FailedLine (i + k) (the (snd (parseInodeChange (lines ! k)))) (lines ! k))))"
proof (induction lines arbitrary: i changes)
  case Nil
  then show ?case by simp
next
  case (Cons line rest)
  obtain c e where p: "parseInodeChange line = (c, e)" by (cases "parseInodeChange line")
  show ?case
  proof (cases e)
    case (Some err)
    then show ?thesis using p by (simp add: parse_ok_def)
  next
    case None
    have l: "length (changes[i := c]) = Suc i + length rest" using Cons.prems by simp
    have t: "take (Suc i) (changes[i := c]) = take i changes @ [c]"
      using Cons.prems by (simp add: take_Suc_conv_app_nth)
    show ?thesis
      using p None Cons.IH[OF l] by (simp add: parse_ok_def Let_def t)
  qed
qed

text \<open>
  Claim C6. With \<open>k\<close> the number of lines before the first one the line parser
  refuses: when no line is refused, the batch parser returns the results of the line
  parser, one per line and in the order of the lines, none of them \<^verbatim>\<open>nil\<close>, and no
  error; otherwise it returns \<^verbatim>\<open>nil\<close> for the sequence and the error of line \<open>k\<close>,
  which carries the index \<open>k\<close>, counted from 0, and the fields of that line.
\<close>

theorem parseInodeChanges_all_or_first_error:
  "parseInodeChanges lines =
     (let k = length (takeWhile parse_ok lines) in
      if k = length lines
      then (Some (map (fst \<circ> parseInodeChange) lines), None)
      else (None, Some (FailedLine k (the (snd (parseInodeChange (lines ! k)))) (lines ! k)))) \<and>
   (list_all parse_ok lines \<longrightarrow> None \<notin> set (map (fst \<circ> parseInodeChange) lines))"
proof -
  have "fst (parseInodeChange l) \<noteq> None" if "parse_ok l" for l
  proof -
    have "parseInodeChange l = (fst (parseInodeChange l), None)"
      using that unfolding parse_ok_def by (metis prod.collapse)
    then show ?thesis by (rule parseInodeChange_ok_Some)
  qed
  then have "None \<notin> set (map (fst \<circ> parseInodeChange) lines)" if "list_all parse_ok lines"
    using that by (fastforce simp: list_all_iff)
  moreover have "parseInodeChanges lines =
     (let k = length (takeWhile parse_ok lines) in
      if k = length lines
      then (Some (map (fst \<circ> parseInodeChange) lines), None)
      else (None, Some (FailedLine k (the (snd (parseInodeChange (lines ! k)))) (lines ! k))))"
    unfolding parseInodeChanges_def
    by (subst parseInodeChanges_loop_eq) (simp_all add: Let_def)
  ultimately show ?thesis by blast
qed

theorem parseInodeChanges_all_or_first_error_witness:
  "list_all parse_ok [[''M'', ''/'', ''/a''], [''+'', ''F'', ''/b'']] \<and>
   parseInodeChanges [[''M'', ''/'', ''/a''], [''+'', ''F'', ''/b'']] =
     (Some [Some \<lparr>Change = Modified, Type = Directory, Path = ''/a'', NewPath = [],
                  ReferenceCountChange = 0\<rparr>,
            Some \<lparr>Change = Created, Type = File, Path = ''/b'', NewPath = [],
                  ReferenceCountChange = 0\<rparr>], None) \<and>
   parseInodeChanges [[''M'', ''/'', ''/a''], [''?'', ''F'', ''/b''], [''+'', ''F'', ''/c'']] =
     (None, Some (FailedLine 1 (UnknownChangeType ''?'') [''?'', ''F'', ''/b'']))"
proof -
  have a: "parseInodeChange [''M'', ''/'', ''/a''] =
      (Some \<lparr>Change = Modified, Type = Directory, Path = ''/a'', NewPath = [],
             ReferenceCountChange = 0\<rparr>, None)"
    by (simp add: parseInodeChange_def changeTypeMap_simps inodeTypeMap_def
        unescapeFilepath_Cons unescapeFilepath_Nil prepend_def)
  have b: "parseInodeChange [''+'', ''F'', ''/b''] =
      (Some \<lparr>Change = Created, Type = File, Path = ''/b'', NewPath = [],
             ReferenceCountChange = 0\<rparr>, None)"
    by (simp add: parseInodeChange_def changeTypeMap_simps inodeTypeMap_def
        unescapeFilepath_Cons unescapeFilepath_Nil prepend_def)
  have c: "parseInodeChange [''?'', ''F'', ''/b''] = (None, Some (UnknownChangeType ''?''))"
    by (simp add: parseInodeChange_def changeTypeMap_def)
  show ?thesis
    using parseInodeChanges_all_or_first_error[of "[[''M'', ''/'', ''/a''], [''+'', ''F'', ''/b'']]"]
      parseInodeChanges_all_or_first_error[of
        "[[''M'', ''/'', ''/a''], [''?'', ''F'', ''/b''], [''+'', ''F'', ''/c'']]"]
    by (simp add: parse_ok_def a b c)
qed


subsection \<open>The process runner\<close>

lemma Split_from_not_Nil: "Split_from cur s sep \<noteq> []"
  by (induction s arbitrary: cur) auto

lemma Split_from_no_sep: "sep \<notin> set t \<Longrightarrow> Split_from cur t sep = [cur @ t]"
  by (induction t arbitrary: cur) auto

lemma Split_from_line:
  "sep \<notin> set l \<Longrightarrow> Split_from cur (l @ sep # rest) sep = (cur @ l) # Split_from [] rest sep"
  by (induction l arbitrary: cur) auto

lemma Split_from_lines:
  "\<forall>l \<in> set ls. sep \<notin> set l \<Longrightarrow> sep \<notin> set t \<Longrightarrow>
   Split_from [] (concat (map (\<lambda>l. l @ [sep]) ls) @ t) sep = ls @ [t]"
  by (induction ls) (simp_all add: Split_from_no_sep Split_from_line)

lemma Split_lines:
  "\<forall>l \<in> set ls. sep \<notin> set l \<Longrightarrow> sep \<notin> set t \<Longrightarrow>
   Split (concat (map (\<lambda>l. l @ [sep]) ls) @ t) sep = ls @ [t]"
  unfolding Split_def by (rule Split_from_lines)

lemma Split_from_segments:
  "l \<in> set (Split_from cur s sep) \<Longrightarrow> sep \<notin> set cur \<Longrightarrow> sep \<notin> set l"
proof (induction s arbitrary: cur)
  case Nil
  then show ?case by simp
next
  case (Cons c s)
  show ?case
  proof (cases "c = sep")
    case True
    then have "l = cur \<or> l \<in> set (Split_from [] s sep)" using Cons.prems(1) by simp
    then show ?thesis
    proof
      assume "l = cur"
      then show ?thesis using Cons.prems(2) by simp
    next
      assume "l \<in> set (Split_from [] s sep)"
      then show ?thesis by (rule Cons.IH) simp
    qed
  next
    case False
    then have "l \<in> set (Split_from (cur @ [c]) s sep)" using Cons.prems(1) by simp
    then show ?thesis by (rule Cons.IH) (use False Cons.prems(2) in auto)
  qed
qed

lemma Split_segments: "l \<in> set (Split s sep) \<Longrightarrow> sep \<notin> set l"
  unfolding Split_def using Split_from_segments[of l "[]" s sep] by simp

lemma Split_from_concat:
  "concat (map (\<lambda>l. l @ [sep]) (butlast (Split_from cur s sep))) @ last (Split_from cur s sep)
     = cur @ s"
  by (induction s arbitrary: cur) (auto simp: Split_from_not_Nil)

lemma Split_concat:
  "concat (map (\<lambda>l. l @ [sep]) (butlast (Split s sep))) @ last (Split s sep) = s"
  unfolding Split_def using Split_from_concat[of sep "[]" s] by simp

lemma length_Split_from:
  "length (Split_from cur s sep) = Suc (length (filter (\<lambda>c. c = sep) s))"
  by (induction s arbitrary: cur) auto

lemma length_Split: "length (Split s sep) = Suc (length (filter (\<lambda>c. c = sep) s))"
  unfolding Split_def by (rule length_Split_from)

text \<open>
  Claim C1, as the code has it. Every output is a sequence of lines, each ended by a
  newline, followed by a rest without a newline (\<open>Split_concat\<close> and
  \<open>Split_segments\<close> above): the rest is empty exactly when the output ends in a
  newline or is empty. When the executor returns no error and the caller passed no
  writer, \<^verbatim>\<open>run\<close> returns the fields of every such line, in order, and no error,
  whatever the rest is: what follows the last newline is dropped without a check.
\<close>

theorem run_buffered:
  assumes "exec z (if sudo z then ''sudo'' else cmd) (if sudo z then cmd # args else args)
             = (None, stdout, stderr)"
    and "stdout = concat (map (\<lambda>l. l @ [CHR 0x0A]) ls) @ tail"
    and "\<forall>l \<in> set ls. CHR 0x0A \<notin> set l"
    and "CHR 0x0A \<notin> set tail"
  shows "run z False cmd args = (Some (map Fields ls), None)"
proof -
  have "Split stdout (CHR 0x0A) = ls @ [tail]"
    unfolding assms(2) using assms(3,4) by (rule Split_lines)
  then show ?thesis using assms(1) by (simp add: run_def Let_def)
qed

theorem run_buffered_witness:
  "run \<lparr>exec = (\<lambda>cmd args. (None, ''NAME USED'' @ [CHR 0x0A] @ ''tank 1024'' @ [CHR 0x0A], [])),
        sudo = False\<rparr> False ''zfs'' [''list'']
     = (Some [[''NAME'', ''USED''], [''tank'', ''1024'']], None)"
proof -
  have f: "Fields ''NAME USED'' = [''NAME'', ''USED'']" "Fields ''tank 1024'' = [''tank'', ''1024'']"
    by (simp_all add: Fields_def DecodeRuneInString_def IsSpace_def)
  show ?thesis
    using run_buffered[of
        "\<lparr>exec = (\<lambda>cmd args. (None, ''NAME USED'' @ [CHR 0x0A] @ ''tank 1024'' @ [CHR 0x0A], [])),
          sudo = False\<rparr>"
        "''zfs''" "[''list'']" "''NAME USED'' @ [CHR 0x0A] @ ''tank 1024'' @ [CHR 0x0A]" "[]"
        "[''NAME USED'', ''tank 1024'']" "[]"]
    by (simp add: f)
qed

text \<open>
  An output that does not end in a newline is no error: the row of its last, unended
  line is missing from the table.
\<close>

theorem run_unterminated_counterexample:
  "last (''a b'' @ [CHR 0x0A] @ ''c d'') \<noteq> CHR 0x0A \<and>
   run \<lparr>exec = (\<lambda>cmd args. (None, ''a b'' @ [CHR 0x0A] @ ''c d'', [])), sudo = False\<rparr>
       False ''zfs'' [''list'']
     = (Some [[''a'', ''b'']], None)"
  by (simp add: run_def Split_def Fields_def DecodeRuneInString_def IsSpace_def)


subsection \<open>The property mapper\<close>

lemma parseProps_loop_other:
  "k \<notin> key_of pf ` set header \<Longrightarrow>
   map_of (parseProps_loop pf vals i header m) k = map_of m k"
  by (induction header arbitrary: i m) (auto simp: key_of_def Let_def update_conv')

lemma parseProps_loop_last:
  "j < length header \<Longrightarrow>
   \<forall>j'. j < j' \<and> j' < length header \<longrightarrow> key_of pf (header ! j') \<noteq> key_of pf (header ! j) \<Longrightarrow>
   map_of (parseProps_loop pf vals i header m) (key_of pf (header ! j)) = Some (val_at vals (i + j))"
proof (induction header arbitrary: i j m)
  case Nil
  then show ?case by simp
next
  case (Cons v header)
  show ?case
  proof (cases j)
    case 0
    have "key_of pf v \<notin> key_of pf ` set header"
    proof
      assume "key_of pf v \<in> key_of pf ` set header"
      then obtain n where "n < length header" "key_of pf (header ! n) = key_of pf v"
        by (auto simp: in_set_conv_nth)
      then show False using Cons.prems(2)[rule_format, of "Suc n"] 0 by simp
    qed
    then show ?thesis
      using 0 by (simp add: parseProps_loop_other Let_def update_conv' key_of_def[symmetric] val_at_def)
  next
    case (Suc n)
    have "n < length header" using Cons.prems(1) Suc by simp
    moreover have "\<forall>j'. n < j' \<and> j' < length header \<longrightarrow>
        key_of pf (header ! j') \<noteq> key_of pf (header ! n)"
      using Cons.prems(2) Suc by (metis Suc_less_eq length_Cons nth_Cons_Suc)
    ultimately show ?thesis
      using Cons.IH[of n "i + 1"] Suc by (simp add: Let_def)
  qed
qed

lemma parseProps_loop_distinct:
  "distinct (map fst m) \<Longrightarrow> distinct (map fst (parseProps_loop pf vals i header m))"
  by (induction header arbitrary: i m) (simp_all add: Let_def distinct_update)

lemma parseProps_loop_keys:
  "fst ` set (parseProps_loop pf vals i header m) = fst ` set m \<union> key_of pf ` set header"
  by (induction header arbitrary: i m) (auto simp: Let_def key_of_def dom_update[simplified] image_iff)

lemma parseProps_bad_count: "length out \<noteq> 2 \<Longrightarrow> parseProps pf d out = (d, Some OutputMismatch)"
  by (simp add: parseProps_def)

lemma props_string_step:
  "(\<And>d. props (fst (rest d)) = props d) \<Longrightarrow> (\<And>v d. props (put v d) = props d) \<Longrightarrow>
   props (fst (string_step get put key rest d)) = props d"
  by (simp add: string_step_def)

lemma props_uint_step:
  "(\<And>d. props (fst (rest d)) = props d) \<Longrightarrow> (\<And>u d. props (put u d) = props d) \<Longrightarrow>
   props (fst (uint_step get put key rest d)) = props d"
  by (simp add: uint_step_def split: prod.splits option.splits)

lemma parseProps_props:
  "props (fst (parseProps pf d [header, vals])) = parseProps_loop pf vals 0 header (props d)"
  by (simp add: parseProps_def Let_def props_string_step props_uint_step)

lemma parseProps_too_few:
  "length (parseProps_loop pf vals 0 header (props d)) \<le> length (dsPropList pf) \<Longrightarrow>
   parseProps pf d [header, vals] =
     (d\<lparr>props := parseProps_loop pf vals 0 header (props d)\<rparr>, Some OutputMismatch)"
  by (simp add: parseProps_def Let_def)

text \<open>
  Claim C7. A row table that does not have exactly 2 rows is refused with the error
  "output does not match what is expected". For a header row and a value row, the
  property table the call leaves in the dataset maps the lower-cased header field at
  index \<open>i\<close> to the value field at index \<open>i\<close> when the value row has one and to
  \<open>-\<close> when it is shorter (where several header fields share a key, the last one
  stands), and keeps every other entry it had; its size is the number of its keys, old
  and new; and the call is refused with the same error when that size does not exceed
  the length of \<^verbatim>\<open>dsPropList\<close>.
\<close>

theorem parseProps_table:
  "(length out \<noteq> 2 \<longrightarrow> parseProps pf d out = (d, Some OutputMismatch)) \<and>
   (\<forall>i < length header.
      (\<forall>j. i < j \<and> j < length header \<longrightarrow> key_of pf (header ! j) \<noteq> key_of pf (header ! i)) \<longrightarrow>
      map_of (props (fst (parseProps pf d [header, vals]))) (key_of pf (header ! i))
        = Some (val_at vals i)) \<and>
   (\<forall>k. k \<notin> key_of pf ` set header \<longrightarrow>
      map_of (props (fst (parseProps pf d [header, vals]))) k = map_of (props d) k) \<and>
   (distinct (map fst (props d)) \<longrightarrow>
      length (props (fst (parseProps pf d [header, vals])))
        = card (fst ` set (props d) \<union> key_of pf ` set header)) \<and>
   (length (props (fst (parseProps pf d [header, vals]))) \<le> length (dsPropList pf) \<longrightarrow>
      snd (parseProps pf d [header, vals]) = Some OutputMismatch)"
proof -
  let ?m = "parseProps_loop pf vals 0 header (props d)"
  have "length ?m = card (fst ` set (props d) \<union> key_of pf ` set header)"
    if "distinct (map fst (props d))"
  proof -
    have "distinct (map fst ?m)" using that by (rule parseProps_loop_distinct)
    then have "length ?m = card (set (map fst ?m))"
      by (metis distinct_card length_map)
    then show ?thesis by (simp add: parseProps_loop_keys)
  qed
  moreover have "map_of ?m (key_of pf (header ! i)) = Some (val_at vals i)"
    if "i < length header"
      "\<forall>j. i < j \<and> j < length header \<longrightarrow> key_of pf (header ! j) \<noteq> key_of pf (header ! i)" for i
    using parseProps_loop_last[OF that, of vals 0 "props d"] by simp
  ultimately show ?thesis
    using parseProps_too_few[of pf vals header d]
    by (simp add: parseProps_bad_count parseProps_props parseProps_loop_other)
qed

theorem parseProps_table_witness:
  "parseProps \<lparr>GOOS = ''linux'', dsPropList = [''name'', ''used'', ''avail''], unicodeToLower = (\<lambda>s. s)\<rparr>
      (newDataset ''tank'') [[''NAME'', ''USED'', ''AVAIL'']]
     = (newDataset ''tank'', Some OutputMismatch) \<and>
   map_of (props (fst (parseProps
      \<lparr>GOOS = ''linux'', dsPropList = [''name'', ''used'', ''avail''], unicodeToLower = (\<lambda>s. s)\<rparr>
      (newDataset ''tank'') [[''NAME'', ''USED'', ''AVAIL''], [''tank'', ''1024'']]))) ''name''
     = Some ''tank'' \<and>
   map_of (props (fst (parseProps
      \<lparr>GOOS = ''linux'', dsPropList = [''name'', ''used'', ''avail''], unicodeToLower = (\<lambda>s. s)\<rparr>
      (newDataset ''tank'') [[''NAME'', ''USED'', ''AVAIL''], [''tank'', ''1024'']]))) ''avail''
     = Some ''-'' \<and>
   length (props (fst (parseProps
      \<lparr>GOOS = ''linux'', dsPropList = [''name'', ''used'', ''avail''], unicodeToLower = (\<lambda>s. s)\<rparr>
      (newDataset ''tank'') [[''NAME'', ''USED'', ''AVAIL''], [''tank'', ''1024'']]))) = 3 \<and>
   snd (parseProps
      \<lparr>GOOS = ''linux'', dsPropList = [''name'', ''used'', ''avail''], unicodeToLower = (\<lambda>s. s)\<rparr>
      (newDataset ''tank'') [[''NAME'', ''USED'', ''AVAIL''], [''tank'', ''1024'']])
     = Some OutputMismatch"
proof -
  let ?pf = "\<lparr>GOOS = ''linux'', dsPropList = [''name'', ''used'', ''avail''], unicodeToLower = (\<lambda>s. s)\<rparr>"
  let ?h = "[''NAME'', ''USED'', ''AVAIL'']"
  have k: "key_of ?pf ''NAME'' = ''name''" "key_of ?pf ''USED'' = ''used''"
    "key_of ?pf ''AVAIL'' = ''avail''"
    by (simp_all add: key_of_def ToLower_def char_of_eq_iff)
  have d0: "\<forall>j. 0 < j \<and> j < length ?h \<longrightarrow> key_of ?pf (?h ! j) \<noteq> key_of ?pf (?h ! 0)"
  proof (intro allI impI)
    fix j :: nat
    assume "0 < j \<and> j < length ?h"
    then have "j = 1 \<or> j = 2" by auto
    then show "key_of ?pf (?h ! j) \<noteq> key_of ?pf (?h ! 0)" using k by auto
  qed
  have d2: "\<forall>j. 2 < j \<and> j < length ?h \<longrightarrow> key_of ?pf (?h ! j) \<noteq> key_of ?pf (?h ! 2)"
  proof (intro allI impI)
    fix j :: nat
    assume "2 < j \<and> j < length ?h"
    then have False by (simp add: numeral_2_eq_2) arith
    then show "key_of ?pf (?h ! j) \<noteq> key_of ?pf (?h ! 2)" ..
  qed
  have c: "card {''name'', ''used'', ''avail''} = 3" by simp
  note t = parseProps_table[of "[?h]" ?pf "newDataset ''tank''" ?h "[''tank'', ''1024'']"]
  have "parseProps ?pf (newDataset ''tank'') [?h] = (newDataset ''tank'', Some OutputMismatch)"
    using t[THEN conjunct1] by simp
  moreover have "map_of (props (fst (parseProps ?pf (newDataset ''tank'') [?h, [''tank'', ''1024'']]))) ''name''
      = Some ''tank''"
    using t[THEN conjunct2, THEN conjunct1, rule_format, of 0, OF _ d0[rule_format]] by (simp add: k val_at_def)
  moreover have "map_of (props (fst (parseProps ?pf (newDataset ''tank'') [?h, [''tank'', ''1024'']]))) ''avail''
      = Some ''-''"
    using t[THEN conjunct2, THEN conjunct1, rule_format, of 2, OF _ d2[rule_format]] by (simp add: k val_at_def)
  moreover have l: "length (props (fst (parseProps ?pf (newDataset ''tank'') [?h, [''tank'', ''1024'']]))) = 3"
    using t[THEN conjunct2, THEN conjunct2, THEN conjunct2, THEN conjunct1] c
    by (simp add: k newDataset_def)
  moreover have "snd (parseProps ?pf (newDataset ''tank'') [?h, [''tank'', ''1024'']]) = Some OutputMismatch"
    using t[THEN conjunct2, THEN conjunct2, THEN conjunct2, THEN conjunct2] l by simp
  ultimately show ?thesis by blast
qed


subsection \<open>Typed fields: the sentinel and the trimmed suffixes\<close>

text \<open>
  The sentinel \<open>-\<close> becomes the empty string in a text field and 0 in an unsigned
  field, with no error. The fragmentation field is cut at its \<open>%\<close> before it is
  parsed as an unsigned number, and the dedup ratio loses its last byte, the \<open>x\<close>,
  before it is parsed as a floating-point number.
\<close>

lemma setString_sentinel: "setString field ''-'' = []"
  by (simp add: setString_def)

lemma setString_other: "value \<noteq> ''-'' \<Longrightarrow> setString field value = value"
  by (simp add: setString_def)

lemma setUint_sentinel: "setUint field ''-'' = (0, None)"
  by (simp add: setUint_def)

lemma Index_absent: "b \<notin> set s \<Longrightarrow> Index s b = - 1"
  by (induction s) (auto simp: Let_def)

lemma Index_nonneg_or_absent: "Index s b = - 1 \<or> (0 \<le> Index s b \<and> Index s b < int (length s))"
  by (induction s) (auto simp: Let_def)

lemma Index_first: "b \<notin> set s \<Longrightarrow> Index (s @ b # t) b = int (length s)"
  by (induction s) (auto simp: Let_def)

lemma Zpool_parseLine_fragmentation:
  "CHR ''%'' \<notin> set ds \<Longrightarrow>
   Zpool_parseLine parseFloat64 z [n, ''fragmentation'', ds @ ''%'', src] =
     (case setUint (Fragmentation z) ds of (u, err) \<Rightarrow> Return (z\<lparr>Fragmentation := u\<rparr>, err))"
  using Index_first[of "CHR ''%''" ds "[]"]
  by (simp add: Zpool_parseLine_def Let_def)

lemma Zpool_parseLine_fragmentation_sentinel:
  "Zpool_parseLine parseFloat64 z [n, ''fragmentation'', ''-'', src] =
     Return (z\<lparr>Fragmentation := 0\<rparr>, None)"
  by (simp add: Zpool_parseLine_def Let_def setUint_sentinel)

lemma Zpool_parseLine_dedupratio:
  "r \<noteq> [] \<Longrightarrow>
   Zpool_parseLine parseFloat64 z [n, ''dedupratio'', r @ ''x'', src] =
     (case parseFloat64 r of (f, err) \<Rightarrow> Return (z\<lparr>DedupRatio := f\<rparr>, err))"
  by (simp add: Zpool_parseLine_def Let_def ParseFloat_def)

text \<open>
  Claim C8 fails on the dedup ratio. The line \<^verbatim>\<open>dedupratio\<close> with the sentinel \<open>-\<close> as
  its value does not go through \<^verbatim>\<open>setString\<close> or \<^verbatim>\<open>setUint\<close>: its last byte is cut
  off, the empty string that is left goes to \<^verbatim>\<open>strconv.ParseFloat\<close>, and
  \<^verbatim>\<open>parseLine\<close> returns the syntax error of that call (with the field at 0).
\<close>

theorem Zpool_parseLine_dedupratio_sentinel:
  "Zpool_parseLine parseFloat64 z [n, ''dedupratio'', ''-'', src] =
     Return (z\<lparr>DedupRatio := 0\<rparr>, Some (NumError ''ParseFloat'' [] ErrSyntax))"
  by (simp add: Zpool_parseLine_def Let_def ParseFloat_def)


subsection \<open>The table batch parser\<close>

lemma groups_Cons:
  "groups (r # rs) =
     (r # takeWhile (\<lambda>x. hd x = hd r) rs) # groups (dropWhile (\<lambda>x. hd x = hd r) rs)"
proof (induction rs arbitrary: r)
  case Nil
  then show ?case by simp
next
  case (Cons x xs)
  show ?case
  proof (cases "hd x = hd r")
    case True
    then show ?thesis using Cons[of x] by simp
  next
    case False
    then show ?thesis using Cons[of x] by simp
  qed
qed

lemma concat_groups: "concat (groups rows) = rows"
  by (induction rows) (auto split: list.splits)

lemma groups_nonempty: "g \<in> set (groups rows) \<Longrightarrow> g \<noteq> []"
  by (induction rows arbitrary: g) (auto split: list.splits if_splits)

lemma groups_same_name: "g \<in> set (groups rows) \<Longrightarrow> r \<in> set g \<Longrightarrow> hd r = hd (hd g)"
  by (induction rows arbitrary: g r) (fastforce split: list.splits if_splits)+

lemma groups_boundary:
  "Suc i < length (groups rows) \<Longrightarrow>
   hd (last (groups rows ! i)) \<noteq> hd (hd (groups rows ! Suc i))"
proof (induction rows arbitrary: i)
  case Nil
  then show ?case by simp
next
  case (Cons r rs)
  show ?case
  proof (cases "groups rs")
    case Nil
    then show ?thesis using Cons.prems by simp
  next
    case (Cons g gs)
    have gne: "g \<noteq> []" using groups_nonempty[of g rs] Cons by simp
    show ?thesis
    proof (cases "hd (hd g) = hd r")
      case True
      then show ?thesis
        using Cons.IH[of i] Cons.prems Cons gne by (cases i) auto
    next
      case False
      then show ?thesis
        using Cons.IH[of "i - 1"] Cons.prems Cons by (cases i) auto
    qed
  qed
qed

lemma listByType_loop_current:
  assumes "\<forall>r \<in> set rows. r \<noteq> []"
  shows "listByType_loop pf header name (done @ [cur]) rows =
     (case feed pf header cur (takeWhile (\<lambda>r. hd r = name) rows) of
        (d, Some err) \<Rightarrow> Return (None, Some err)
      | (d, None) \<Rightarrow>
          (case records pf header (groups (dropWhile (\<lambda>r. hd r = name) rows)) of
             (ds, Some err) \<Rightarrow> Return (None, Some err)
           | (ds, None) \<Rightarrow> Return (Some (done @ d # ds), None)))"
  using assms
proof (induction rows arbitrary: name "done" cur)
  case Nil
  then show ?case by simp
next
  case (Cons r rows)
  have r: "\<not> length r < 1" "r ! 0 = hd r" using Cons.prems by (auto simp: hd_conv_nth)
  have rows: "\<forall>r \<in> set rows. r \<noteq> []" using Cons.prems by simp
  show ?case
  proof (cases "hd r = name")
    case True
    obtain d1 e where p: "parseProps pf cur [header, r] = (d1, e)"
      by (cases "parseProps pf cur [header, r]")
    show ?thesis
    proof (cases e)
      case (Some err)
      then show ?thesis using True p r by simp
    next
      case None
      have "listByType_loop pf header name (done @ [cur]) (r # rows)
          = listByType_loop pf header name (done @ [d1]) rows"
        using True p r None by simp
      moreover have tw: "takeWhile (\<lambda>r. hd r = name) (r # rows) = r # takeWhile (\<lambda>r. hd r = name) rows"
        and dw: "dropWhile (\<lambda>r. hd r = name) (r # rows) = dropWhile (\<lambda>r. hd r = name) rows"
        using True by simp_all
      moreover have "feed pf header cur (r # takeWhile (\<lambda>r. hd r = name) rows)
          = feed pf header d1 (takeWhile (\<lambda>r. hd r = name) rows)"
        using p None by simp
      ultimately show ?thesis using Cons.IH[OF rows, of name "done" d1] by (simp only:)
    qed
  next
    case False
    obtain d1 e where p: "parseProps pf (newDataset (hd r)) [header, r] = (d1, e)"
      by (cases "parseProps pf (newDataset (hd r)) [header, r]")
    let ?tw = "takeWhile (\<lambda>x. hd x = hd r) rows"
    let ?dw = "dropWhile (\<lambda>x. hd x = hd r) rows"
    have g: "groups (r # rows) = (r # ?tw) # groups ?dw" by (rule groups_Cons)
    have neq: "name \<noteq> hd r" using False by auto
    show ?thesis
    proof (cases e)
      case (Some err)
      have "listByType_loop pf header name (done @ [cur]) (r # rows) = Return (None, Some err)"
        using neq p r Some by simp
      moreover have "records pf header (groups (r # rows)) = ([], Some err)"
        unfolding g using p Some by simp
      moreover have "takeWhile (\<lambda>r. hd r = name) (r # rows) = []"
        and "dropWhile (\<lambda>r. hd r = name) (r # rows) = r # rows"
        using False by simp_all
      ultimately show ?thesis by (simp only: feed.simps prod.case option.case)
    next
      case None
      have tw: "takeWhile (\<lambda>r. hd r = name) (r # rows) = []"
        and dw: "dropWhile (\<lambda>r. hd r = name) (r # rows) = r # rows"
        using False by simp_all
      have "listByType_loop pf header name (done @ [cur]) (r # rows)
          = listByType_loop pf header (hd r) ((done @ [cur]) @ [d1]) rows"
        using neq p r None by (simp add: butlast_append)
      also have "\<dots> =
        (case feed pf header d1 ?tw of
           (d, Some err) \<Rightarrow> Return (None, Some err)
         | (d, None) \<Rightarrow>
             (case records pf header (groups ?dw) of
                (ds, Some err) \<Rightarrow> Return (None, Some err)
              | (ds, None) \<Rightarrow> Return (Some ((done @ [cur]) @ d # ds), None)))"
        by (rule Cons.IH[OF rows])
      finally have lhs: "listByType_loop pf header name (done @ [cur]) (r # rows) =
        (case feed pf header d1 ?tw of
           (d, Some err) \<Rightarrow> Return (None, Some err)
         | (d, None) \<Rightarrow>
             (case records pf header (groups ?dw) of
                (ds, Some err) \<Rightarrow> Return (None, Some err)
              | (ds, None) \<Rightarrow> Return (Some ((done @ [cur]) @ d # ds), None)))" .
      have rec: "records pf header (groups (r # rows)) =
        (case feed pf header d1 ?tw of
           (d, Some err) \<Rightarrow> ([], Some err)
         | (d, None) \<Rightarrow>
             (case records pf header (groups ?dw) of
                (ds, Some err) \<Rightarrow> ([], Some err)
              | (ds, None) \<Rightarrow> (d # ds, None)))"
        unfolding g using p None by simp
      show ?thesis
        unfolding lhs tw dw rec
        by (simp split: prod.splits option.splits)
    qed
  qed
qed

lemma listByType_loop_records:
  assumes "\<forall>r \<in> set rows. r \<noteq> [] \<and> hd r \<noteq> []"
  shows "listByType_loop pf header [] [] rows =
     (case records pf header (groups rows) of
        (ds, Some err) \<Rightarrow> Return (None, Some err)
      | (ds, None) \<Rightarrow> Return (if ds = [] then None else Some ds, None))"
proof (cases rows)
  case Nil
  then show ?thesis by simp
next
  case (Cons r rs)
  have r: "\<not> length r < 1" "r ! 0 = hd r" "hd r \<noteq> []" using assms Cons by (auto simp: hd_conv_nth)
  have rs: "\<forall>r \<in> set rs. r \<noteq> []" using assms Cons by simp
  obtain d1 e where p: "parseProps pf (newDataset (hd r)) [header, r] = (d1, e)"
    by (cases "parseProps pf (newDataset (hd r)) [header, r]")
  let ?tw = "takeWhile (\<lambda>x. hd x = hd r) rs"
  let ?dw = "dropWhile (\<lambda>x. hd x = hd r) rs"
  have g: "groups (r # rs) = (r # ?tw) # groups ?dw" by (rule groups_Cons)
  show ?thesis
  proof (cases e)
    case (Some err)
    have "listByType_loop pf header [] [] (r # rs) = Return (None, Some err)"
      using p r Some by simp
    moreover have "records pf header (groups (r # rs)) = ([], Some err)"
      unfolding g using p Some by simp
    ultimately show ?thesis unfolding Cons by (simp only: prod.case option.case)
  next
    case None
    have "listByType_loop pf header [] [] (r # rs) = listByType_loop pf header (hd r) ([] @ [d1]) rs"
      using p r None by simp
    also have "\<dots> =
      (case feed pf header d1 ?tw of
         (d, Some err) \<Rightarrow> Return (None, Some err)
       | (d, None) \<Rightarrow>
           (case records pf header (groups ?dw) of
              (ds, Some err) \<Rightarrow> Return (None, Some err)
            | (ds, None) \<Rightarrow> Return (Some ([] @ d # ds), None)))"
      by (rule listByType_loop_current[OF rs])
    finally have lhs: "listByType_loop pf header [] [] (r # rs) =
      (case feed pf header d1 ?tw of
         (d, Some err) \<Rightarrow> Return (None, Some err)
       | (d, None) \<Rightarrow>
           (case records pf header (groups ?dw) of
              (ds, Some err) \<Rightarrow> Return (None, Some err)
            | (ds, None) \<Rightarrow> Return (Some ([] @ d # ds), None)))" .
    have rec: "records pf header (groups (r # rs)) =
      (case feed pf header d1 ?tw of
         (d, Some err) \<Rightarrow> ([], Some err)
       | (d, None) \<Rightarrow>
           (case records pf header (groups ?dw) of
              (ds, Some err) \<Rightarrow> ([], Some err)
            | (ds, None) \<Rightarrow> (d # ds, None)))"
      unfolding g using p None by simp
    show ?thesis
      unfolding Cons lhs rec by (simp split: prod.splits option.splits)
  qed
qed

lemma Fields_loop_nonempty:
  "(\<And>w. start = Some w \<Longrightarrow> w \<noteq> []) \<Longrightarrow> f \<in> set (Fields_loop start s) \<Longrightarrow> f \<noteq> []"
proof (induction start s arbitrary: f rule: Fields_loop.induct)
  case (1 start)
  then show ?case by (auto split: option.splits)
next
  case (2 start c s)
  obtain rune width where d: "DecodeRuneInString (c # s) = (rune, width)"
    by (cases "DecodeRuneInString (c # s)")
  then have w: "0 < width" using DecodeRuneInString_width[of rune width c s] by simp
  show ?case
  proof (cases "IsSpace rune")
    case True
    then show ?thesis
      using 2(1,2)[OF d[symmetric] refl True] 2(4,5) d
      by (cases start) auto
  next
    case False
    have "take width (c # s) \<noteq> []" using w by (cases width) auto
    then show ?thesis
      using 2(3)[OF d[symmetric] refl False] 2(5) d False by auto
  qed
qed

lemma Fields_nonempty: "f \<in> set (Fields s) \<Longrightarrow> f \<noteq> []"
  unfolding Fields_def by (rule Fields_loop_nonempty[of None]) simp_all

lemma run_rows_fields:
  "run z out_given cmd args = (Some out, None) \<Longrightarrow> r \<in> set out \<Longrightarrow> f \<in> set r \<Longrightarrow> f \<noteq> []"
  by (auto simp: run_def Let_def split: prod.splits option.splits if_splits dest: Fields_nonempty)

text \<open>
  Claim C9. Let the listing command return the rows \<open>out\<close>. An empty batch gives an
  empty result and no error. Otherwise the first row is the header of every value row
  after it. When no value row is blank, the value rows fall into the runs of
  neighbouring rows with the same leading field (a new run starts exactly where the
  leading field differs from that of the row before), \<^verbatim>\<open>listByType\<close> starts one record
  per run and feeds the header with each row of the run, the row at the boundary first,
  to the property mapper of that record, and on success the records come in the order
  of their rows; the first error of the property mapper ends the call with that error
  and no records.
\<close>

theorem listByType_groups:
  assumes "doOutput z ([''list'', ''-rp'', ''-t'', t, ''-o'', ''all''] @ (if f \<noteq> [] then [f] else []))
             = (Some out, None)"
  shows "(out = [] \<longrightarrow> listByType pf z t f = Return (None, None)) \<and>
    (\<forall>header rows. out = header # rows \<and> (\<forall>r \<in> set rows. r \<noteq> []) \<longrightarrow>
       listByType pf z t f =
         (case records pf header (groups rows) of
            (ds, Some err) \<Rightarrow> Return (None, Some err)
          | (ds, None) \<Rightarrow> Return (if ds = [] then None else Some ds, None)) \<and>
       concat (groups rows) = rows \<and>
       (\<forall>g \<in> set (groups rows). g \<noteq> [] \<and> (\<forall>r \<in> set g. hd r = hd (hd g))) \<and>
       (\<forall>i. Suc i < length (groups rows) \<longrightarrow>
          hd (last (groups rows ! i)) \<noteq> hd (hd (groups rows ! Suc i))))"
proof -
  have e: "out = [] \<Longrightarrow> listByType pf z t f = Return (None, None)"
    using assms by (cases "f = []") (simp_all add: listByType_def)
  have l: "listByType pf z t f =
         (case records pf header (groups rows) of
            (ds, Some err) \<Rightarrow> Return (None, Some err)
          | (ds, None) \<Rightarrow> Return (if ds = [] then None else Some ds, None))"
    if a: "out = header # rows \<and> (\<forall>r \<in> set rows. r \<noteq> [])" for header rows
  proof -
    have "hd r \<noteq> []" if "r \<in> set rows" for r
    proof -
      have "r \<noteq> []" using a that by simp
      then have "hd r \<in> set r" by simp
      moreover have "r \<in> set out" using a that by simp
      ultimately show ?thesis
        using run_rows_fields[OF assms[unfolded doOutput_def]] by blast
    qed
    then have ok: "\<forall>r \<in> set rows. r \<noteq> [] \<and> hd r \<noteq> []" using a by simp
    have "listByType pf z t f = listByType_loop pf header [] [] rows"
      using assms a by (cases "f = []") (simp_all add: listByType_def)
    then show ?thesis using listByType_loop_records[OF ok] by simp
  qed
  have g: "concat (groups rows) = rows \<and>
       (\<forall>g \<in> set (groups rows). g \<noteq> [] \<and> (\<forall>r \<in> set g. hd r = hd (hd g))) \<and>
       (\<forall>i. Suc i < length (groups rows) \<longrightarrow>
          hd (last (groups rows ! i)) \<noteq> hd (hd (groups rows ! Suc i)))" for rows
    using concat_groups groups_nonempty groups_same_name groups_boundary by blast
  show ?thesis using e l g by blast
qed

theorem listByType_groups_witness:
  "listByType \<lparr>GOOS = ''solaris'', dsPropList = [''name''], unicodeToLower = (\<lambda>s. s)\<rparr>
     \<lparr>exec = (\<lambda>cmd args. (None,
         ''NAME USED AVAIL VOLSIZE QUOTA REFER'' @ [CHR 0x0A] @ ''tank 2 3 - - 4'' @ [CHR 0x0A] @
         ''tank 4 5 - - 6'' @ [CHR 0x0A] @ ''tank/a 7 8 - - 9'' @ [CHR 0x0A], [])),
       sudo = False\<rparr> ''all'' []
   = Return (Some
       [\<lparr>Name = ''tank'', Origin = [], Used = 4, Avail = 5, Mountpoint = [], Compression = [],
         Type = [], Written = 0, Volsize = 0, Logicalused = 0, Usedbydataset = 0, Quota = 0,
         Referenced = 6,
         props = [(''name'', ''tank''), (''used'', ''4''), (''avail'', ''5''), (''volsize'', ''-''),
                  (''quota'', ''-''), (''refer'', ''6'')]\<rparr>,
        \<lparr>Name = ''tank/a'', Origin = [], Used = 7, Avail = 8, Mountpoint = [], Compression = [],
         Type = [], Written = 0, Volsize = 0, Logicalused = 0, Usedbydataset = 0, Quota = 0,
         Referenced = 9,
         props = [(''name'', ''tank/a''), (''used'', ''7''), (''avail'', ''8''), (''volsize'', ''-''),
                  (''quota'', ''-''), (''refer'', ''9'')]\<rparr>], None)"
proof -
  let ?pf = "\<lparr>GOOS = ''solaris'', dsPropList = [''name''], unicodeToLower = (\<lambda>s. s)\<rparr>"
  let ?z = "\<lparr>exec = (\<lambda>cmd args. (None,
         ''NAME USED AVAIL VOLSIZE QUOTA REFER'' @ [CHR 0x0A] @ ''tank 2 3 - - 4'' @ [CHR 0x0A] @
         ''tank 4 5 - - 6'' @ [CHR 0x0A] @ ''tank/a 7 8 - - 9'' @ [CHR 0x0A], [])),
       sudo = False\<rparr>"
  let ?h = "[''NAME'', ''USED'', ''AVAIL'', ''VOLSIZE'', ''QUOTA'', ''REFER'']"
  let ?r1 = "[''tank'', ''2'', ''3'', ''-'', ''-'', ''4'']"
  let ?r2 = "[''tank'', ''4'', ''5'', ''-'', ''-'', ''6'']"
  let ?r3 = "[''tank/a'', ''7'', ''8'', ''-'', ''-'', ''9'']"
  have f: "Fields ''NAME USED AVAIL VOLSIZE QUOTA REFER'' = ?h" "Fields ''tank 2 3 - - 4'' = ?r1"
    "Fields ''tank 4 5 - - 6'' = ?r2" "Fields ''tank/a 7 8 - - 9'' = ?r3"
    by (simp_all add: Fields_def DecodeRuneInString_def IsSpace_def)
  have o: "doOutput ?z ([''list'', ''-rp'', ''-t'', ''all'', ''-o'', ''all''] @ (if [] \<noteq> ([]::string) then [[]] else []))
      = (Some [?h, ?r1, ?r2, ?r3], None)"
    by (simp add: doOutput_def run_def Split_def f)
  have k: "ToLower (\<lambda>s. s) ''NAME'' = ''name''" "ToLower (\<lambda>s. s) ''USED'' = ''used''"
    "ToLower (\<lambda>s. s) ''AVAIL'' = ''avail''" "ToLower (\<lambda>s. s) ''VOLSIZE'' = ''volsize''"
    "ToLower (\<lambda>s. s) ''QUOTA'' = ''quota''" "ToLower (\<lambda>s. s) ''REFER'' = ''refer''"
    by (simp_all add: ToLower_def char_of_eq_iff)
  have u: "ParseUint ''2'' 10 64 = (2, None)"
    "ParseUint ''3'' 10 64 = (3, None)" "ParseUint ''4'' 10 64 = (4, None)"
    "ParseUint ''5'' 10 64 = (5, None)" "ParseUint ''6'' 10 64 = (6, None)"
    "ParseUint ''7'' 10 64 = (7, None)" "ParseUint ''8'' 10 64 = (8, None)"
    "ParseUint ''9'' 10 64 = (9, None)"
    by (simp_all add: ParseUint_def digit_val_def maxUint64_def)
  have p1: "parseProps ?pf (newDataset ''tank'') [?h, ?r1] =
      (\<lparr>Name = ''tank'', Origin = [], Used = 2, Avail = 3, Mountpoint = [], Compression = [],
         Type = [], Written = 0, Volsize = 0, Logicalused = 0, Usedbydataset = 0, Quota = 0,
         Referenced = 4,
         props = [(''name'', ''tank''), (''used'', ''2''), (''avail'', ''3''), (''volsize'', ''-''),
                  (''quota'', ''-''), (''refer'', ''4'')]\<rparr>, None)"
    by (simp add: parseProps_def string_step_def uint_step_def setString_def setUint_def
        lookup_def newDataset_def k u)
  have p2: "parseProps ?pf
      \<lparr>Name = ''tank'', Origin = [], Used = 2, Avail = 3, Mountpoint = [], Compression = [],
         Type = [], Written = 0, Volsize = 0, Logicalused = 0, Usedbydataset = 0, Quota = 0,
         Referenced = 4,
         props = [(''name'', ''tank''), (''used'', ''2''), (''avail'', ''3''), (''volsize'', ''-''),
                  (''quota'', ''-''), (''refer'', ''4'')]\<rparr> [?h, ?r2] =
      (\<lparr>Name = ''tank'', Origin = [], Used = 4, Avail = 5, Mountpoint = [], Compression = [],
         Type = [], Written = 0, Volsize = 0, Logicalused = 0, Usedbydataset = 0, Quota = 0,
         Referenced = 6,
         props = [(''name'', ''tank''), (''used'', ''4''), (''avail'', ''5''), (''volsize'', ''-''),
                  (''quota'', ''-''), (''refer'', ''6'')]\<rparr>, None)"
    by (simp add: parseProps_def string_step_def uint_step_def setString_def setUint_def
        lookup_def k u)
  have p3: "parseProps ?pf (newDataset ''tank/a'') [?h, ?r3] =
      (\<lparr>Name = ''tank/a'', Origin = [], Used = 7, Avail = 8, Mountpoint = [], Compression = [],
         Type = [], Written = 0, Volsize = 0, Logicalused = 0, Usedbydataset = 0, Quota = 0,
         Referenced = 9,
         props = [(''name'', ''tank/a''), (''used'', ''7''), (''avail'', ''8''), (''volsize'', ''-''),
                  (''quota'', ''-''), (''refer'', ''9'')]\<rparr>, None)"
    by (simp add: parseProps_def string_step_def uint_step_def setString_def setUint_def
        lookup_def newDataset_def k u)
  have g: "groups [?r1, ?r2, ?r3] = [[?r1, ?r2], [?r3]]" by simp
  have rec: "records ?pf ?h (groups [?r1, ?r2, ?r3]) =
      ([\<lparr>Name = ''tank'', Origin = [], Used = 4, Avail = 5, Mountpoint = [], Compression = [],
         Type = [], Written = 0, Volsize = 0, Logicalused = 0, Usedbydataset = 0, Quota = 0,
         Referenced = 6,
         props = [(''name'', ''tank''), (''used'', ''4''), (''avail'', ''5''), (''volsize'', ''-''),
                  (''quota'', ''-''), (''refer'', ''6'')]\<rparr>,
        \<lparr>Name = ''tank/a'', Origin = [], Used = 7, Avail = 8, Mountpoint = [], Compression = [],
         Type = [], Written = 0, Volsize = 0, Logicalused = 0, Usedbydataset = 0, Quota = 0,
         Referenced = 9,
         props = [(''name'', ''tank/a''), (''used'', ''7''), (''avail'', ''8''), (''volsize'', ''-''),
                  (''quota'', ''-''), (''refer'', ''9'')]\<rparr>], None)"
    unfolding g by (simp add: p1 p2 p3)
  have ne: "\<forall>r \<in> set [?r1, ?r2, ?r3]. r \<noteq> []" by simp
  show ?thesis
    using listByType_groups[OF o, of ?pf, THEN conjunct2, rule_format, of ?h "[?r1, ?r2, ?r3]",
        OF conjI[OF refl ne], THEN conjunct1]
    by (simp only: rec prod.case option.case list.simps if_False)
qed


subsection \<open>The reference-count suffix\<close>

lemma dec_from_Nil: "dec_from n [] = n"
  by (simp add: dec_from_def)

lemma dec_from_Cons: "dec_from n (c # cs) = dec_from (10 * n + (of_char c - 48)) cs"
  by (simp add: dec_from_def)

lemma dec_from_ge: "n \<le> dec_from n ds"
proof (induction ds arbitrary: n)
  case Nil
  then show ?case by (simp add: dec_from_Nil)
next
  case (Cons c cs)
  have "n \<le> 10 * n + (of_char c - 48)" by simp
  also have "\<dots> \<le> dec_from (10 * n + (of_char c - 48)) cs" by (rule Cons)
  finally show ?case by (simp add: dec_from_Cons)
qed

lemma dec_from_less: "list_all isDigit ds \<Longrightarrow> dec_from n ds < (n + 1) * 10 ^ length ds"
proof (induction ds arbitrary: n)
  case Nil
  then show ?case by (simp add: dec_from_Nil)
next
  case (Cons c cs)
  then have d: "of_char c - 48 \<le> (9::nat)" by (auto simp: isDigit_def)
  have "dec_from (10 * n + (of_char c - 48)) cs < (10 * n + (of_char c - 48) + 1) * 10 ^ length cs"
    using Cons by simp
  also have "\<dots> \<le> (10 * n + 10) * 10 ^ length cs"
    using d by (intro mult_right_mono) simp_all
  also have "\<dots> = (n + 1) * 10 ^ length (c # cs)" by (simp add: algebra_simps)
  finally show ?case by (simp add: dec_from_Cons)
qed

lemma digit_val_isDigit: "isDigit c \<Longrightarrow> digit_val (of_char c) = Some (of_char c - 48)"
  by (simp add: isDigit_def digit_val_def)

lemma ParseUint_loop_decimal:
  "list_all isDigit ds \<Longrightarrow> n \<le> maxUint64 \<Longrightarrow>
   ParseUint_loop 10 maxUint64 n ds =
     (if dec_from n ds \<le> maxUint64 then (dec_from n ds, None) else (maxUint64, Some ErrRange))"
proof (induction ds arbitrary: n)
  case Nil
  then show ?case by (simp add: dec_from_Nil)
next
  case (Cons c cs)
  define d :: nat where "d = of_char c - 48"
  have dv: "digit_val (of_char c) = Some d" and d9: "d \<le> 9"
    using Cons.prems(1) by (auto simp: d_def digit_val_isDigit isDigit_def)
  have cs: "list_all isDigit cs" using Cons.prems(1) by simp
  have ge: "n * 10 + d \<le> dec_from n (c # cs)"
    using dec_from_ge[of "10 * n + d" cs] by (simp add: dec_from_Cons d_def mult.commute)
  have M: "maxUint64 = 18446744073709551615" by (simp add: maxUint64_def)
  show ?case
  proof (cases "n \<ge> maxUint64 div 10 + 1")
    case True
    then have "maxUint64 < n * 10 + d" by (simp add: M)
    then have "\<not> dec_from n (c # cs) \<le> maxUint64" using ge by linarith
    then show ?thesis using True dv d9 by simp
  next
    case small: False
    show ?thesis
    proof (cases "n * 10 + d \<le> maxUint64")
      case True
      then have m: "(n * 10 + d) mod 18446744073709551616 = n * 10 + d" by (simp add: M)
      have "ParseUint_loop 10 maxUint64 n (c # cs) = ParseUint_loop 10 maxUint64 (n * 10 + d) cs"
        using small dv d9 True by (simp add: m Let_def)
      also have "\<dots> = (if dec_from (n * 10 + d) cs \<le> maxUint64 then (dec_from (n * 10 + d) cs, None)
           else (maxUint64, Some ErrRange))"
        by (rule Cons.IH[OF cs True])
      finally show ?thesis by (simp add: dec_from_Cons d_def mult.commute)
    next
      case False
      then have big: "18446744073709551616 \<le> n * 10 + d" by (simp add: M)
      have "n * 10 + d < 2 * 18446744073709551616" using small d9 by (simp add: M)
      then have "(n * 10 + d) mod 18446744073709551616 = n * 10 + d - 18446744073709551616"
        using big by (simp add: mod_if le_mod_geq)
      moreover have "n * 10 + d - 18446744073709551616 < n * 10" using big d9 by simp
      ultimately have w: "(n * 10 + d) mod 18446744073709551616 < n * 10" by simp
      have "\<not> dec_from n (c # cs) \<le> maxUint64" using ge False by linarith
      then show ?thesis using small dv d9 w by (simp add: Let_def)
    qed
  qed
qed

lemma Atoi_digits_decimal:
  "list_all isDigit ds \<Longrightarrow> Atoi_digits (int n) ds = Some (int (dec_from n ds))"
proof (induction ds arbitrary: n)
  case Nil
  then show ?case by (simp add: dec_from_Nil)
next
  case (Cons c cs)
  then have r: "48 \<le> (of_char c :: nat)" "(of_char c :: nat) \<le> 57" by (auto simp: isDigit_def)
  define k :: nat where "k = of_char c - 48"
  have k: "of_char c = 48 + k" "k \<le> 9" using r by (simp_all add: k_def)
  have d: "(of_char c + 256 - 48) mod 256 = k"
    unfolding k(1) using k(2) by simp
  have "Atoi_digits (int n) (c # cs) = Atoi_digits (int n * 10 + int k) cs"
    using k(2) by (simp only: Atoi_digits.simps Let_def d) simp
  also have "int n * 10 + int k = int (10 * n + k)" by simp
  also have "Atoi_digits (int (10 * n + k)) cs = Some (int (dec_from (10 * n + k) cs))"
    by (rule Cons.IH) (use Cons.prems in simp)
  finally show ?case by (simp only: dec_from_Cons k_def)
qed

lemma ParseUint_decimal:
  assumes "ds \<noteq> []" "list_all isDigit ds"
  shows "ParseUint ds 10 0 =
     (if decimal ds \<le> maxUint64 then (decimal ds, None)
      else (maxUint64, Some (NumError ''ParseUint'' ds ErrRange)))"
proof -
  have "(2::nat) ^ IntSize - 1 = maxUint64" by (simp add: IntSize_def maxUint64_def)
  then show ?thesis
    using assms ParseUint_loop_decimal[OF assms(2), of 0]
    by (simp add: ParseUint_def decimal_def del: ParseUint_loop.simps)
qed

lemma ParseInt_signed:
  assumes "is_sign sg" "ds \<noteq> []" "list_all isDigit ds"
  shows "ParseInt (sg # ds) 10 0 =
     (if fits_int (signed_value sg ds) then (signed_value sg ds, None)
      else (if sg = CHR ''-'' then - (2 ^ 63) else 2 ^ 63 - 1,
            Some (NumError ''ParseInt'' (sg # ds) ErrRange)))"
proof (cases "decimal ds \<le> maxUint64")
  case True
  then have u: "ParseUint ds 10 0 = (decimal ds, None)"
    using ParseUint_decimal[OF assms(2,3)] by simp
  show ?thesis
    using assms(1) by (auto simp: ParseInt_def u is_sign_def signed_value_def fits_int_def IntSize_def Let_def)
next
  case False
  then have u: "ParseUint ds 10 0 = (maxUint64, Some (NumError ''ParseUint'' ds ErrRange))"
    using ParseUint_decimal[OF assms(2,3)] by simp
  have big: "18446744073709551615 < decimal ds" using False by (simp add: maxUint64_def)
  show ?thesis
    using assms(1) big
    by (auto simp: ParseInt_def u is_sign_def signed_value_def fits_int_def IntSize_def Let_def maxUint64_def)
qed

lemma Atoi_signed:
  assumes "is_sign sg" "ds \<noteq> []" "list_all isDigit ds"
  shows "Atoi (sg # ds) =
     (if fits_int (signed_value sg ds) then (signed_value sg ds, None)
      else (if sg = CHR ''-'' then - (2 ^ 63) else 2 ^ 63 - 1,
            Some (NumError ''Atoi'' (sg # ds) ErrRange)))"
proof (cases "length (sg # ds) < 19")
  case True
  have a: "Atoi_digits 0 ds = Some (int (decimal ds))"
    using Atoi_digits_decimal[OF assms(3), of 0] by (simp add: decimal_def)
  have "decimal ds < 1 * 10 ^ length ds"
    using dec_from_less[OF assms(3), of 0] by (simp add: decimal_def)
  also have "\<dots> \<le> 1 * 10 ^ 17"
    using True by (intro mult_left_mono power_increasing) simp_all
  finally have small: "decimal ds < 100000000000000000" by simp
  then have "fits_int (signed_value sg ds)"
    by (simp add: fits_int_def signed_value_def)
  then show ?thesis
    using True assms(1,2) a by (auto simp: Atoi_def Let_def signed_value_def is_sign_def)
next
  case False
  then show ?thesis
    using ParseInt_signed[OF assms] by (simp add: Atoi_def Let_def)
qed

lemma not_isDigit_paren: "\<not> isDigit (CHR '')'')"
  by (simp add: isDigit_def)

lemma match_at_group:
  assumes "is_group sg ds"
  shows "match_at (group_text sg ds @ post) = Some [group_text sg ds, sg # ds]"
proof -
  have d: "\<And>x. x \<in> set ds \<Longrightarrow> isDigit x" using assms by (simp add: is_group_def list_all_iff)
  have t: "takeWhile isDigit (ds @ CHR '')'' # post) = ds"
    using d not_isDigit_paren by (simp add: takeWhile_tail)
  have dr: "dropWhile isDigit (ds @ CHR '')'' # post) = CHR '')'' # post"
    using d not_isDigit_paren by (simp add: dropWhile_append3)
  show ?thesis
    using assms by (simp add: group_text_def is_group_def is_sign_def t dr Let_def)
qed

lemma match_at_Some:
  assumes "match_at s = Some m"
  shows "\<exists>sg ds post. is_group sg ds \<and> s = group_text sg ds @ post \<and> m = [group_text sg ds, sg # ds]"
proof -
  obtain p sg rest where s: "s = p # sg # rest"
    using assms by (cases s rule: match_at.cases) auto
  let ?ds = "takeWhile isDigit rest"
  let ?r = "dropWhile isDigit rest"
  have c: "p = CHR ''('' \<and> is_sign sg \<and> ?ds \<noteq> [] \<and> ?r \<noteq> [] \<and> hd ?r = CHR '')''"
    and m: "m = [p # sg # ?ds @ [CHR '')''], sg # ?ds]"
    using assms unfolding s by (auto simp: Let_def is_sign_def split: if_splits)
  have "rest = ?ds @ ?r" by simp
  moreover have "?r = CHR '')'' # tl ?r" using c by (cases ?r) auto
  ultimately have "rest = ?ds @ CHR '')'' # tl ?r" by simp
  then have "s = group_text sg ?ds @ tl ?r" using s c by (simp add: group_text_def)
  moreover have "is_group sg ?ds"
    using c by (simp add: is_group_def list_all_iff) (meson set_takeWhileD)
  ultimately show ?thesis using m c by (auto simp: group_text_def)
qed

lemma FindStringSubmatch_skip:
  "CHR ''('' \<notin> set pre \<Longrightarrow> FindStringSubmatch (pre @ s) = FindStringSubmatch s"
proof (induction pre)
  case Nil
  then show ?case by simp
next
  case (Cons c pre)
  then have "c \<noteq> CHR ''(''" by auto
  then have "match_at (c # pre @ s) = None" by (cases "pre @ s") simp_all
  then show ?case using Cons by simp
qed

lemma FindStringSubmatch_found:
  "match_at t \<noteq> None \<Longrightarrow> FindStringSubmatch (pre @ t) \<noteq> None"
proof (induction pre)
  case Nil
  then show ?case by (cases t) (auto split: option.splits)
next
  case (Cons c pre)
  then show ?case by (auto split: option.splits)
qed

lemma FindStringSubmatch_Some:
  "FindStringSubmatch s = Some m \<Longrightarrow> \<exists>pre t. s = pre @ t \<and> match_at t = Some m"
proof (induction s)
  case Nil
  then show ?case by simp
next
  case (Cons c s)
  show ?case
  proof (cases "match_at (c # s)")
    case None
    then obtain pre t where "s = pre @ t" "match_at t = Some m" using Cons by auto
    then have "c # s = (c # pre) @ t \<and> match_at t = Some m" by simp
    then show ?thesis by blast
  next
    case (Some m')
    then have "c # s = [] @ (c # s) \<and> match_at (c # s) = Some m" using Cons.prems by simp
    then show ?thesis by blast
  qed
qed

lemma FindStringSubmatch_None_iff:
  "FindStringSubmatch s = None \<longleftrightarrow>
     (\<forall>pre sg ds post. s = pre @ group_text sg ds @ post \<longrightarrow> \<not> is_group sg ds)"
proof
  assume n: "FindStringSubmatch s = None"
  show "\<forall>pre sg ds post. s = pre @ group_text sg ds @ post \<longrightarrow> \<not> is_group sg ds"
  proof (intro allI impI notI)
    fix pre sg ds post
    assume "s = pre @ group_text sg ds @ post" "is_group sg ds"
    then have "FindStringSubmatch s \<noteq> None"
      using FindStringSubmatch_found[of "group_text sg ds @ post" pre] match_at_group[of sg ds post]
      by simp
    then show False using n by simp
  qed
next
  assume a: "\<forall>pre sg ds post. s = pre @ group_text sg ds @ post \<longrightarrow> \<not> is_group sg ds"
  show "FindStringSubmatch s = None"
  proof (rule ccontr)
    assume "FindStringSubmatch s \<noteq> None"
    then obtain m where "FindStringSubmatch s = Some m" by auto
    then obtain pre t where "s = pre @ t" "match_at t = Some m"
      using FindStringSubmatch_Some by blast
    then show False using match_at_Some[of t m] a by blast
  qed
qed

lemma parseReferenceCount_group:
  assumes "is_group sg ds" "CHR ''('' \<notin> set pre"
  shows "parseReferenceCount (pre @ group_text sg ds @ post) = Atoi (sg # ds)"
proof -
  have "FindStringSubmatch (pre @ group_text sg ds @ post) = Some [group_text sg ds, sg # ds]"
    using FindStringSubmatch_skip[OF assms(2)] match_at_group[OF assms(1), of post]
    by (simp add: group_text_def)
  then show ?thesis by (simp add: parseReferenceCount_def)
qed

lemma parseInodeChange_Modified4:
  assumes "inodeTypeMap t \<noteq> InodeUnknown" "unescapeFilepath p = (path, None)"
  shows "parseInodeChange [''M'', t, p, f] =
     (case parseReferenceCount f of
        (n, Some err) \<Rightarrow> (None, Some (FailedReferenceCount err))
      | (n, None) \<Rightarrow>
          (Some \<lparr>Change = Modified, Type = inodeTypeMap t, Path = path, NewPath = [],
                 ReferenceCountChange = n\<rparr>, None))"
  using assms by (simp add: parseInodeChange_def changeTypeMap_simps split: prod.splits option.splits)

lemma starts_group_iff: "starts_group t \<longleftrightarrow> match_at t \<noteq> None"
proof
  assume "starts_group t"
  then show "match_at t \<noteq> None"
    using match_at_group by (auto simp: starts_group_def)
next
  assume "match_at t \<noteq> None"
  then obtain m where "match_at t = Some m" by auto
  then show "starts_group t"
    using match_at_Some[of t m] by (auto simp: starts_group_def)
qed

lemma FindStringSubmatch_leftmost:
  "no_group_before (length pre) (pre @ t) \<Longrightarrow> FindStringSubmatch (pre @ t) = FindStringSubmatch t"
proof (induction pre)
  case Nil
  then show ?case by simp
next
  case (Cons c pre)
  have "\<not> starts_group (drop 0 ((c # pre) @ t))"
    using Cons.prems unfolding no_group_before_def by (metis length_greater_0_conv list.distinct(1))
  then have m: "match_at (c # pre @ t) = None" by (simp add: starts_group_iff)
  have "no_group_before (length pre) (pre @ t)"
    unfolding no_group_before_def
  proof (intro allI impI)
    fix i assume "i < length pre"
    then have "\<not> starts_group (drop (Suc i) ((c # pre) @ t))"
      using Cons.prems unfolding no_group_before_def by (metis Suc_less_eq length_Cons)
    then show "\<not> starts_group (drop i (pre @ t))" by simp
  qed
  then show ?case using Cons.IH m by simp
qed

lemma FindStringSubmatch_Some_leftmost:
  "FindStringSubmatch s = Some m \<Longrightarrow>
   \<exists>pre t. s = pre @ t \<and> match_at t = Some m \<and> no_group_before (length pre) s"
proof (induction s)
  case Nil
  then show ?case by simp
next
  case (Cons c s)
  show ?case
  proof (cases "match_at (c # s)")
    case None
    then obtain pre t where p: "s = pre @ t" "match_at t = Some m" "no_group_before (length pre) s"
      using Cons by auto
    have "no_group_before (length (c # pre)) (c # s)"
      unfolding no_group_before_def
    proof (intro allI impI)
      fix i assume i: "i < length (c # pre)"
      show "\<not> starts_group (drop i (c # s))"
      proof (cases i)
        case 0
        then show ?thesis using None by (simp add: starts_group_iff)
      next
        case (Suc j)
        then have "j < length pre" using i by simp
        then show ?thesis using p(3) Suc unfolding no_group_before_def by simp
      qed
    qed
    then have "c # s = (c # pre) @ t \<and> match_at t = Some m \<and> no_group_before (length (c # pre)) (c # s)"
      using p by simp
    then show ?thesis by blast
  next
    case (Some m')
    then have "c # s = [] @ (c # s) \<and> match_at (c # s) = Some m \<and> no_group_before (length ([]::string)) (c # s)"
      using Cons.prems by (simp add: no_group_before_def)
    then show ?thesis by blast
  qed
qed

lemma parseReferenceCount_leftmost:
  assumes "is_group sg ds" "no_group_before (length pre) (pre @ group_text sg ds @ post)"
  shows "parseReferenceCount (pre @ group_text sg ds @ post) = Atoi (sg # ds)"
proof -
  have "group_text sg ds @ post \<noteq> []" by (simp add: group_text_def)
  then have "FindStringSubmatch (group_text sg ds @ post) = Some [group_text sg ds, sg # ds]"
    using match_at_group[OF assms(1), of post] by (cases "group_text sg ds @ post") simp_all
  then have "FindStringSubmatch (pre @ group_text sg ds @ post) = Some [group_text sg ds, sg # ds]"
    using FindStringSubmatch_leftmost[OF assms(2)] by simp
  then show ?thesis by (simp add: parseReferenceCount_def)
qed

lemma leftmost_group_exists:
  assumes "f = pre @ group_text sg ds @ post" "is_group sg ds"
  shows "\<exists>pre sg ds post. f = pre @ group_text sg ds @ post \<and> is_group sg ds \<and>
           no_group_before (length pre) f"
proof -
  have "FindStringSubmatch f \<noteq> None"
    using FindStringSubmatch_found[of "group_text sg ds @ post" pre] match_at_group[OF assms(2), of post]
      assms(1) by simp
  then obtain m where "FindStringSubmatch f = Some m" by auto
  then obtain pre' t where p: "f = pre' @ t" "match_at t = Some m" "no_group_before (length pre') f"
    using FindStringSubmatch_Some_leftmost by blast
  then obtain sg' ds' post' where "is_group sg' ds'" "t = group_text sg' ds' @ post'"
    using match_at_Some[of t m] by blast
  then show ?thesis using p by blast
qed

lemma parseReferenceCount_no_match_iff:
  "snd (parseReferenceCount f) = Some RegexpNoMatch \<longleftrightarrow>
     (\<forall>pre sg ds post. f = pre @ group_text sg ds @ post \<longrightarrow> \<not> is_group sg ds)"
proof (cases "FindStringSubmatch f")
  case None
  then show ?thesis
    using FindStringSubmatch_None_iff[of f] by (simp add: parseReferenceCount_def)
next
  case (Some m)
  then obtain pre t where "f = pre @ t" "match_at t = Some m"
    using FindStringSubmatch_Some by blast
  then obtain sg ds post where g: "is_group sg ds" "m = [group_text sg ds, sg # ds]"
    using match_at_Some[of t m] by blast
  have "snd (Atoi (sg # ds)) \<noteq> Some RegexpNoMatch"
    using Atoi_signed[of sg ds] g(1) by (simp add: is_group_def)
  then have "snd (parseReferenceCount f) \<noteq> Some RegexpNoMatch"
    using Some g(2) by (simp add: parseReferenceCount_def)
  moreover have "\<not> (\<forall>pre sg ds post. f = pre @ group_text sg ds @ post \<longrightarrow> \<not> is_group sg ds)"
    using FindStringSubmatch_None_iff[of f] Some by simp
  ultimately show ?thesis by blast
qed

lemma no_paren_no_group_before:
  "CHR ''('' \<notin> set pre \<Longrightarrow> no_group_before (length pre) (pre @ t)"
  unfolding no_group_before_def
proof (intro allI impI)
  fix i assume np: "CHR ''('' \<notin> set pre" and i: "i < length pre"
  have ne: "pre ! i \<noteq> CHR ''(''"
  proof
    assume e: "pre ! i = CHR ''(''"
    have "pre ! i \<in> set pre" using i by (rule nth_mem)
    then have "CHR ''('' \<in> set pre" unfolding e .
    with np show False by (rule notE)
  qed
  have "drop i (pre @ t) = pre ! i # drop (Suc i) pre @ t"
    using i by (simp add: Cons_nth_drop_Suc)
  with ne have "drop i (pre @ t) = pre ! i # drop (Suc i) pre @ t" "pre ! i \<noteq> CHR ''(''"
    by blast+
  then show "\<not> starts_group (drop i (pre @ t))"
    by (auto simp: starts_group_def group_text_def)
qed

text \<open>
  Claim C4, as the code has it. Take a Modified line of 4 fields whose inode code is
  known and whose path decodes. Field 3 is searched for the text \<open>(+N)\<close> or
  \<open>(-N)\<close>, \<open>N\<close> one or more decimal digits, and the leftmost one counts: the one
  at an offset before which no such text starts, whatever stands before and after it
  (stray parentheses included). When the signed number of the leftmost group is a 64-bit
  \<^verbatim>\<open>int\<close>, the parser returns it as \<open>ReferenceCountChange\<close>; when it is not, the
  parser returns the range error of \<^verbatim>\<open>strconv.Atoi\<close>; the parser returns the error
  "regexp does not match" exactly when field 3 holds no such text anywhere; and every
  field that holds such a text has a leftmost one, so that each field falls under one of
  the three cases. Each error is wrapped as "failed to parse reference count".
\<close>

theorem parseInodeChange_reference_count:
  assumes "inodeTypeMap t \<noteq> InodeUnknown" "unescapeFilepath p = (path, None)"
  shows
   "(is_group sg ds \<and> no_group_before (length pre) (pre @ group_text sg ds @ post) \<and>
     fits_int (signed_value sg ds) \<longrightarrow>
       parseInodeChange [''M'', t, p, pre @ group_text sg ds @ post] =
         (Some \<lparr>Change = Modified, Type = inodeTypeMap t, Path = path, NewPath = [],
                ReferenceCountChange = signed_value sg ds\<rparr>, None)) \<and>
    (is_group sg ds \<and> no_group_before (length pre) (pre @ group_text sg ds @ post) \<and>
     \<not> fits_int (signed_value sg ds) \<longrightarrow>
       parseInodeChange [''M'', t, p, pre @ group_text sg ds @ post] =
         (None, Some (FailedReferenceCount (NumError ''Atoi'' (sg # ds) ErrRange)))) \<and>
    ((parseInodeChange [''M'', t, p, f] = (None, Some (FailedReferenceCount RegexpNoMatch))) =
       (\<forall>pre sg ds post. f = pre @ group_text sg ds @ post \<longrightarrow> \<not> is_group sg ds)) \<and>
    ((\<exists>pre sg ds post. f = pre @ group_text sg ds @ post \<and> is_group sg ds) \<longrightarrow>
       (\<exists>pre sg ds post. f = pre @ group_text sg ds @ post \<and> is_group sg ds \<and>
          no_group_before (length pre) f))"
proof -
  have a: "parseReferenceCount (pre @ group_text sg ds @ post) =
      (if fits_int (signed_value sg ds) then (signed_value sg ds, None)
       else (if sg = CHR ''-'' then - (2 ^ 63) else 2 ^ 63 - 1,
             Some (NumError ''Atoi'' (sg # ds) ErrRange)))"
    if "is_group sg ds" "no_group_before (length pre) (pre @ group_text sg ds @ post)"
    using that parseReferenceCount_leftmost[OF that] Atoi_signed[of sg ds]
    by (simp add: is_group_def)
  have c1: "is_group sg ds \<and> no_group_before (length pre) (pre @ group_text sg ds @ post) \<and>
     fits_int (signed_value sg ds) \<longrightarrow>
       parseInodeChange [''M'', t, p, pre @ group_text sg ds @ post] =
         (Some \<lparr>Change = Modified, Type = inodeTypeMap t, Path = path, NewPath = [],
                ReferenceCountChange = signed_value sg ds\<rparr>, None)"
    using a by (simp add: parseInodeChange_Modified4[OF assms])
  have c2: "is_group sg ds \<and> no_group_before (length pre) (pre @ group_text sg ds @ post) \<and>
     \<not> fits_int (signed_value sg ds) \<longrightarrow>
       parseInodeChange [''M'', t, p, pre @ group_text sg ds @ post] =
         (None, Some (FailedReferenceCount (NumError ''Atoi'' (sg # ds) ErrRange)))"
    using a by (simp add: parseInodeChange_Modified4[OF assms])
  have "(parseInodeChange [''M'', t, p, f] = (None, Some (FailedReferenceCount RegexpNoMatch))) =
      (snd (parseReferenceCount f) = Some RegexpNoMatch)"
    by (cases "parseReferenceCount f")
      (auto simp: parseInodeChange_Modified4[OF assms] split: option.splits)
  then have c3: "(parseInodeChange [''M'', t, p, f] = (None, Some (FailedReferenceCount RegexpNoMatch))) =
       (\<forall>pre sg ds post. f = pre @ group_text sg ds @ post \<longrightarrow> \<not> is_group sg ds)"
    using parseReferenceCount_no_match_iff[of f] by simp
  have c4: "(\<exists>pre sg ds post. f = pre @ group_text sg ds @ post \<and> is_group sg ds) \<longrightarrow>
       (\<exists>pre sg ds post. f = pre @ group_text sg ds @ post \<and> is_group sg ds \<and>
          no_group_before (length pre) f)"
    using leftmost_group_exists[of f] by blast
  show ?thesis using c1 c2 c3 c4 by (intro conjI)
qed

theorem parseInodeChange_reference_count_witness:
  "parseInodeChange [''M'', ''/'', ''/testpool/bar/hello.txt'', ''(+1)''] =
     (Some \<lparr>Change = Modified, Type = Directory, Path = ''/testpool/bar/hello.txt'', NewPath = [],
            ReferenceCountChange = 1\<rparr>, None) \<and>
   parseInodeChange [''M'', ''/'', ''/testpool/bar/hello.txt'', ''((+1)''] =
     (Some \<lparr>Change = Modified, Type = Directory, Path = ''/testpool/bar/hello.txt'', NewPath = [],
            ReferenceCountChange = 1\<rparr>, None) \<and>
   parseInodeChange [''M'', ''/'', ''/testpool/bar/hello.txt'', ''(a)(+1)''] =
     (Some \<lparr>Change = Modified, Type = Directory, Path = ''/testpool/bar/hello.txt'', NewPath = [],
            ReferenceCountChange = 1\<rparr>, None) \<and>
   parseInodeChange [''M'', ''/'', ''/testpool/bar/hello.txt'', ''(-9223372036854775809)''] =
     (None, Some (FailedReferenceCount (NumError ''Atoi'' ''-9223372036854775809'' ErrRange))) \<and>
   parseInodeChange [''M'', ''/'', ''/testpool/bar/hello.txt'', ''(notanumber)''] =
     (None, Some (FailedReferenceCount RegexpNoMatch))"
proof -
  have i: "inodeTypeMap ''/'' \<noteq> InodeUnknown" "inodeTypeMap ''/'' = Directory"
    by (simp_all add: inodeTypeMap_def)
  have u: "unescapeFilepath ''/testpool/bar/hello.txt'' = (''/testpool/bar/hello.txt'', None)"
    by (simp add: unescapeFilepath_Cons unescapeFilepath_Nil prepend_def)
  note T = parseInodeChange_reference_count[OF i(1) u]
  have g1: "is_group (CHR ''+'') ''1''" "signed_value (CHR ''+'') ''1'' = 1"
    by (simp_all add: is_group_def is_sign_def isDigit_def signed_value_def decimal_def dec_from_def)
  have g2: "is_group (CHR ''-'') ''9223372036854775809''"
    "signed_value (CHR ''-'') ''9223372036854775809'' = - 9223372036854775809"
    by (simp_all add: is_group_def is_sign_def isDigit_def signed_value_def decimal_def dec_from_def)
  have b0: "no_group_before (length ([]::string)) s" for s
    by (simp add: no_group_before_def)
  have b1: "no_group_before (length ''('') (''('' @ group_text (CHR ''+'') ''1'' @ [])"
    by (simp add: no_group_before_def starts_group_iff group_text_def)
  have b2: "no_group_before (length ''(a)'') (''(a)'' @ group_text (CHR ''+'') ''1'' @ [])"
    by (simp add: no_group_before_def starts_group_iff group_text_def All_less_Suc isDigit_def)
  have n: "\<forall>pre sg ds post. ''(notanumber)'' = pre @ group_text sg ds @ post \<longrightarrow> \<not> is_group sg ds"
    by (rule FindStringSubmatch_None_iff[THEN iffD1]) (simp add: isDigit_def)
  have "parseInodeChange [''M'', ''/'', ''/testpool/bar/hello.txt'', ''(+1)''] =
     (Some \<lparr>Change = Modified, Type = Directory, Path = ''/testpool/bar/hello.txt'', NewPath = [],
            ReferenceCountChange = 1\<rparr>, None)"
    using T[of "CHR ''+''" "''1''" "[]" "[]", THEN conjunct1] g1 b0
    by (simp add: group_text_def fits_int_def i(2))
  moreover have "parseInodeChange [''M'', ''/'', ''/testpool/bar/hello.txt'', ''((+1)''] =
     (Some \<lparr>Change = Modified, Type = Directory, Path = ''/testpool/bar/hello.txt'', NewPath = [],
            ReferenceCountChange = 1\<rparr>, None)"
    using T[of "CHR ''+''" "''1''" "''(''" "[]", THEN conjunct1] g1 b1
    by (simp add: group_text_def fits_int_def i(2))
  moreover have "parseInodeChange [''M'', ''/'', ''/testpool/bar/hello.txt'', ''(a)(+1)''] =
     (Some \<lparr>Change = Modified, Type = Directory, Path = ''/testpool/bar/hello.txt'', NewPath = [],
            ReferenceCountChange = 1\<rparr>, None)"
    using T[of "CHR ''+''" "''1''" "''(a)''" "[]", THEN conjunct1] g1 b2
    by (simp add: group_text_def fits_int_def i(2))
  moreover have "parseInodeChange [''M'', ''/'', ''/testpool/bar/hello.txt'', ''(-9223372036854775809)''] =
     (None, Some (FailedReferenceCount (NumError ''Atoi'' ''-9223372036854775809'' ErrRange)))"
    using T[of "CHR ''-''" "''9223372036854775809''" "[]" "[]", THEN conjunct2, THEN conjunct1] g2 b0
    by (simp add: group_text_def fits_int_def)
  moreover have "parseInodeChange [''M'', ''/'', ''/testpool/bar/hello.txt'', ''(notanumber)''] =
     (None, Some (FailedReferenceCount RegexpNoMatch))"
    using T[of _ _ _ _ "''(notanumber)''", THEN conjunct2, THEN conjunct2, THEN conjunct1] n by blast
  ultimately show ?thesis by blast
qed

text \<open>
  A field that merely contains the group among other characters is accepted, and a
  field of the exact shape is refused when its number is too large.
\<close>

theorem parseInodeChange_reference_count_counterexample:
  "parseInodeChange [''M'', ''F'', ''/a'', ''x(+1)y''] =
     (Some \<lparr>Change = Modified, Type = File, Path = ''/a'', NewPath = [],
            ReferenceCountChange = 1\<rparr>, None) \<and>
   parseInodeChange [''M'', ''F'', ''/a'', ''(+99999999999999999999)''] =
     (None, Some (FailedReferenceCount (NumError ''Atoi'' ''+99999999999999999999'' ErrRange)))"
proof -
  have i: "inodeTypeMap ''F'' \<noteq> InodeUnknown" "inodeTypeMap ''F'' = File"
    by (simp_all add: inodeTypeMap_def)
  have u: "unescapeFilepath ''/a'' = (''/a'', None)"
    by (simp add: unescapeFilepath_Cons unescapeFilepath_Nil prepend_def)
  have g1: "is_sign (CHR ''+'')" "list_all isDigit ''1''" "is_group (CHR ''+'') ''1''"
    "signed_value (CHR ''+'') ''1'' = 1"
    by (simp_all add: is_group_def is_sign_def isDigit_def signed_value_def decimal_def dec_from_def)
  have g2: "list_all isDigit ''99999999999999999999''" "is_group (CHR ''+'') ''99999999999999999999''"
    "signed_value (CHR ''+'') ''99999999999999999999'' = 99999999999999999999"
    by (simp_all add: is_group_def is_sign_def isDigit_def signed_value_def decimal_def dec_from_def)
  have "parseReferenceCount ''x(+1)y'' = (1, None)"
    using parseReferenceCount_group[OF g1(3), of "''x''" "''y''"] Atoi_signed[OF g1(1) _ g1(2)] g1(4)
    by (simp add: group_text_def fits_int_def)
  moreover have "parseReferenceCount ''(+99999999999999999999)'' =
      (2 ^ 63 - 1, Some (NumError ''Atoi'' ''+99999999999999999999'' ErrRange))"
    using parseReferenceCount_group[OF g2(2), of "[]" "[]"] Atoi_signed[OF g1(1) _ g2(1)] g2(3)
    by (simp add: group_text_def fits_int_def)
  ultimately show ?thesis
    by (simp add: parseInodeChange_Modified4[OF i(1) u] i(2))
qed

end
